theory Spec2Isabelle
  imports Main "HOL-Library.Sublist"
begin

section \<open>The search module of \<^verbatim>\<open>src/theme/book.js\<close>\<close>

text \<open>
  The development embeds the search part of the theme script (the closure \<^verbatim>\<open>search\<close>,
  lines 550 to 994): the teaser generator, the URL helpers, the synchronisation of the
  URL with the search box, the query executor and the global key handler.

  JavaScript strings are modelled as \<^typ>\<open>string\<close>; one \<^typ>\<open>char\<close> stands for one
  code unit, so \<^term>\<open>length\<close> is the \<^verbatim>\<open>.length\<close> of the script and all the offsets
  below count the same units as \<^verbatim>\<open>substring\<close> does.
  Exceptions are values: a function that can throw returns a sum, with the error on the
  left; a handler that changes the page returns the error together with the session as
  the exception left it.
\<close>

subsection \<open>String primitives of the language\<close>

text \<open>
  \<^verbatim>\<open>String.prototype.split(sep)\<close> with a string separator: the occurrences of the
  separator are searched from left to right, each search starts behind the previous
  occurrence; the empty separator splits into single code units.
\<close>

fun js_split :: "string \<Rightarrow> string \<Rightarrow> string list" where
  "js_split sep [] = (if sep = [] then [] else [[]])"
| "js_split sep (c # cs) =
     (if sep = [] then [c] # js_split sep cs
      else if prefix sep (c # cs) then [] # js_split sep (drop (length sep) (c # cs))
      else (case js_split sep cs of [] \<Rightarrow> [[c]] | p # ps \<Rightarrow> (c # p) # ps))"

text \<open>\<^verbatim>\<open>Array.prototype.join(sep)\<close> on an array of strings.\<close>

fun js_join :: "string \<Rightarrow> string list \<Rightarrow> string" where
  "js_join sep [] = []"
| "js_join sep [x] = x"
| "js_join sep (x # y # ys) = x @ sep @ js_join sep (y # ys)"

text \<open>
  \<^verbatim>\<open>String.prototype.substring(a, b)\<close> on natural arguments: both are clamped to the
  length and swapped when \<open>a > b\<close>.
\<close>

definition substring :: "string \<Rightarrow> nat \<Rightarrow> nat \<Rightarrow> string" where
  "substring s a b = (if a \<le> b then take (b - a) (drop a s) else take (a - b) (drop b s))"

subsection \<open>The teaser generator\<close>

text \<open>
  \<^verbatim>\<open>escapeHTML\<close> (lines 646 to 658) replaces the five characters of \<^verbatim>\<open>MAP\<close>.
\<close>

fun repl :: "char \<Rightarrow> string" where
  "repl c =
     (if c = CHR ''&'' then ''&amp;''
      else if c = CHR ''<'' then ''&lt;''
      else if c = CHR ''>'' then ''&gt;''
      else if c = CHR 0x22 then ''&#34;''
      else if c = CHR 0x27 then ''&#39;''
      else [c])"

definition escapeHTML :: "string \<Rightarrow> string" where
  "escapeHTML s = concat (map repl s)"

text \<open>
  The state of the scan of \<^verbatim>\<open>makeTeaser\<close> (lines 701 to 726): the array \<^verbatim>\<open>weighted\<close> of
  triples \<^verbatim>\<open>[word, weight, index_in_document]\<close>, and the variables \<^verbatim>\<open>index\<close>,
  \<^verbatim>\<open>value\<close> and \<^verbatim>\<open>searchterm_found\<close>.
\<close>

type_synonym weighted_word = "string \<times> int \<times> nat"

record scan =
  weighted :: "weighted_word list"
  index :: nat
  value' :: int
  searchterm_found :: bool

definition searchterm_weight :: int where
  "searchterm_weight = 40"

text \<open>
  Lines 713 to 718, the loop over the stemmed search terms for one word. The stemmer is
  \<^verbatim>\<open>elasticlunr.stemmer\<close>, a function of the index library: it is a parameter here.
\<close>

fun terms_loop :: "(string \<Rightarrow> string) \<Rightarrow> string list \<Rightarrow> string \<Rightarrow> int \<times> bool \<Rightarrow> int \<times> bool" where
  "terms_loop stemmer [] word vf = vf"
| "terms_loop stemmer (t # ts) word vf =
     terms_loop stemmer ts word
       (if prefix t (stemmer word) then (searchterm_weight, True) else vf)"

text \<open>Lines 710 to 724, the loop over the words of one sentence.\<close>

fun words_loop :: "(string \<Rightarrow> string) \<Rightarrow> string list \<Rightarrow> string list \<Rightarrow> scan \<Rightarrow> scan" where
  "words_loop stemmer sts [] s = s"
| "words_loop stemmer sts (word # ws) s =
     (let s1 = (if length word > 0 then
                  (case terms_loop stemmer sts word (value' s, searchterm_found s) of
                     (v, f) \<Rightarrow> s\<lparr>weighted := weighted s @ [(word, v, index s)],
                                 value' := 2, searchterm_found := f\<rparr>)
                else s)
      in words_loop stemmer sts ws (s1\<lparr>index := index s1 + length word + 1\<rparr>))"

text \<open>Lines 707 to 726, the loop over the sentences.\<close>

fun sentences_loop :: "(string \<Rightarrow> string) \<Rightarrow> string list \<Rightarrow> string list \<Rightarrow> scan \<Rightarrow> scan" where
  "sentences_loop stemmer sts [] s = s"
| "sentences_loop stemmer sts (sentence # rest) s =
     (let s1 = words_loop stemmer sts (js_split '' '' sentence) (s\<lparr>value' := 8\<rparr>)
      in sentences_loop stemmer sts rest (s1\<lparr>index := index s1 + 1\<rparr>))"

definition scan_body :: "(string \<Rightarrow> string) \<Rightarrow> string \<Rightarrow> string list \<Rightarrow> scan" where
  "scan_body stemmer body searchterms =
     sentences_loop stemmer (map stemmer searchterms) (js_split ''. '' body)
       \<lparr>weighted = [], index = 0, value' = 0, searchterm_found = False\<rparr>"

definition weight :: "weighted_word \<Rightarrow> int" where
  "weight w = fst (snd w)"

definition offset :: "weighted_word \<Rightarrow> nat" where
  "offset w = snd (snd w)"

text \<open>Lines 735 to 738: the sum of the first window.\<close>

function first_window :: "weighted_word list \<Rightarrow> nat \<Rightarrow> nat \<Rightarrow> int \<Rightarrow> int" where
  "first_window w window_size wordindex cur_sum =
     (if wordindex < window_size
      then first_window w window_size (Suc wordindex) (cur_sum + weight (w ! wordindex))
      else cur_sum)"
  by pat_completeness auto
termination
  by (relation "measure (\<lambda>(w, window_size, wordindex, cur_sum). window_size - wordindex)") auto

text \<open>Lines 740 to 744: the running sum slides over the words.\<close>

function window_loop :: "weighted_word list \<Rightarrow> nat \<Rightarrow> nat \<Rightarrow> int \<Rightarrow> int list \<Rightarrow> int list" where
  "window_loop w window_size wordindex cur_sum window_weight =
     (if wordindex < length w - window_size
      then (let cur_sum' = cur_sum - weight (w ! wordindex)
                             + weight (w ! (wordindex + window_size))
            in window_loop w window_size (Suc wordindex) cur_sum' (window_weight @ [cur_sum']))
      else window_weight)"
  by pat_completeness auto
termination
  by (relation "measure (\<lambda>(w, window_size, wordindex, cur_sum, window_weight).
                  length w - window_size - wordindex)") auto

definition window_weights :: "weighted_word list \<Rightarrow> nat \<Rightarrow> int list" where
  "window_weights w window_size =
     (let cur_sum = first_window w window_size 0 0
      in window_loop w window_size 0 cur_sum [cur_sum])"

text \<open>
  Lines 750 to 755: the backwards scan. The first argument after the array is the loop
  variable plus one; the pair is \<^verbatim>\<open>(max_sum, max_sum_window_index)\<close>.
\<close>

fun max_loop :: "int list \<Rightarrow> nat \<Rightarrow> int \<times> nat \<Rightarrow> int \<times> nat" where
  "max_loop window_weight 0 best = best"
| "max_loop window_weight (Suc i) (max_sum, max_sum_window_index) =
     (if window_weight ! i > max_sum
      then max_loop window_weight i (window_weight ! i, i)
      else max_loop window_weight i (max_sum, max_sum_window_index))"

text \<open>Lines 746 to 758: the index of the selected window.\<close>

definition select_window :: "bool \<Rightarrow> int list \<Rightarrow> nat" where
  "select_window found window_weight =
     (if found then snd (max_loop window_weight (length window_weight) (0, 0)) else 0)"

text \<open>
  Lines 763 to 778: the words of the window with the text between them, the matches in
  \<^verbatim>\<open><em>\<close>. The loop runs while \<open>i < stop\<close>.
\<close>

function teaser_loop ::
  "string \<Rightarrow> weighted_word list \<Rightarrow> nat \<Rightarrow> nat \<Rightarrow> nat \<Rightarrow> string list \<Rightarrow> string list" where
  "teaser_loop body w i stop idx teaser_split =
     (if i < stop then
        (let word = w ! i;
             gap = (if idx < offset word then [substring body idx (offset word)] else []);
             em = (if weight word = searchterm_weight then [''<em>''] else []);
             idx' = offset word + length (fst word);
             em' = (if weight word = searchterm_weight then [''</em>''] else [])
         in teaser_loop body w (Suc i) stop idx'
              (teaser_split @ gap @ em @ [substring body (offset word) idx'] @ em'))
      else teaser_split)"
  by pat_completeness auto
termination
  by (relation "measure (\<lambda>(body, w, i, stop, idx, teaser_split). stop - i)") auto

text \<open>
  The window that \<^verbatim>\<open>makeTeaser\<close> selects for a body with at least one word, and
  \<^verbatim>\<open>makeTeaser\<close> itself (lines 689 to 781). The number \<open>teaser_word_count\<close> is
  \<^verbatim>\<open>searchoptions.teaser_word_count\<close>.
\<close>

definition max_sum_window_index ::
  "(string \<Rightarrow> string) \<Rightarrow> nat \<Rightarrow> string \<Rightarrow> string list \<Rightarrow> nat" where
  "max_sum_window_index stemmer teaser_word_count body searchterms =
     (let s = scan_body stemmer body searchterms;
          window_size = min (length (weighted s)) teaser_word_count
      in select_window (searchterm_found s) (window_weights (weighted s) window_size))"

definition makeTeaser :: "(string \<Rightarrow> string) \<Rightarrow> nat \<Rightarrow> string \<Rightarrow> string list \<Rightarrow> string" where
  "makeTeaser stemmer teaser_word_count body searchterms =
     (let w = weighted (scan_body stemmer body searchterms)
      in if length w = 0 then body
         else (let window_size = min (length w) teaser_word_count;
                   m = max_sum_window_index stemmer teaser_word_count body searchterms
               in js_join [] (teaser_loop body w m (m + window_size) (offset (w ! m)) [])))"

text \<open>
  The recursive equations of the three index loops are unfolded by hand in the proofs.
\<close>

declare first_window.simps [simp del] window_loop.simps [simp del] teaser_loop.simps [simp del]

text \<open>
  The weight sum of the window of \<open>window_size\<close> words that starts at word \<open>i\<close>: the
  quantity that the selection is measured against.
\<close>

definition window_sum :: "weighted_word list \<Rightarrow> nat \<Rightarrow> nat \<Rightarrow> int" where
  "window_sum w window_size i = (\<Sum>j<window_size. weight (w ! (i + j)))"

text \<open>
  A weighted word is aligned with the body when the body holds the text of the word at
  the recorded offset.
\<close>

definition aligned :: "string \<Rightarrow> weighted_word \<Rightarrow> bool" where
  "aligned body w = (substring body (offset w) (offset w + length (fst w)) = fst w)"

subsection \<open>Objects as the script uses them\<close>

text \<open>
  The two exceptions that the modelled code can throw.
\<close>

datatype error = TypeError | URIError

text \<open>
  A value stored in \<^verbatim>\<open>params\<close> is a string, or \<^verbatim>\<open>undefined\<close> (the second element of
  a one-element array).
\<close>

datatype jsval = Undefined | Str string

fun to_string :: "jsval \<Rightarrow> string" where
  "to_string Undefined = ''undefined''"
| "to_string (Str s) = s"

text \<open>
  An object created by \<^verbatim>\<open>{}\<close>: its own properties in the order of their creation, the
  keys distinct. Its prototype is \<^verbatim>\<open>Object.prototype\<close>, which matters in two places:
  an assignment to the key \<^verbatim>\<open>__proto__\<close> runs the inherited setter, which ignores a
  value that is neither an object nor null and creates no own property; and a call
  \<^verbatim>\<open>obj.hasOwnProperty(k)\<close> finds the inherited method only while the object has no
  own property of that name, otherwise it calls a string or \<^verbatim>\<open>undefined\<close> and throws.
\<close>

type_synonym jsobject = "(string \<times> jsval) list"

definition has_own :: "jsobject \<Rightarrow> string \<Rightarrow> bool" where
  "has_own obj k = (map_of obj k \<noteq> None)"

text \<open>
  \<^verbatim>\<open>obj[k]\<close> for a key that is not a property of \<^verbatim>\<open>Object.prototype\<close> (the script reads
  \<^verbatim>\<open>search\<close>, \<^verbatim>\<open>highlight\<close> and the enumerated own keys).
\<close>

definition obj_get :: "jsobject \<Rightarrow> string \<Rightarrow> jsval" where
  "obj_get obj k = (case map_of obj k of None \<Rightarrow> Undefined | Some v \<Rightarrow> v)"

fun obj_update :: "string \<Rightarrow> jsval \<Rightarrow> jsobject \<Rightarrow> jsobject" where
  "obj_update k v [] = [(k, v)]"
| "obj_update k v ((k', v') # obj) =
     (if k' = k then (k, v) # obj else (k', v') # obj_update k v obj)"

definition obj_set :: "string \<Rightarrow> jsval \<Rightarrow> jsobject \<Rightarrow> jsobject" where
  "obj_set k v obj = (if k = ''__proto__'' then obj else obj_update k v obj)"

definition obj_delete :: "string \<Rightarrow> jsobject \<Rightarrow> jsobject" where
  "obj_delete k obj = filter (\<lambda>kv. fst kv \<noteq> k) obj"

definition hasOwnProperty :: "jsobject \<Rightarrow> string \<Rightarrow> error + bool" where
  "hasOwnProperty obj k =
     (if has_own obj ''hasOwnProperty'' then Inl TypeError else Inr (has_own obj k))"

text \<open>
  The order of \<^verbatim>\<open>for (var prop in obj)\<close>: the keys that are array indices (canonical
  decimal numerals below \<open>2^32 - 1\<close>) in ascending order, then the other keys in the
  order of their creation. \<^verbatim>\<open>Object.prototype\<close> has no enumerable property.
\<close>

definition is_digit :: "char \<Rightarrow> bool" where
  "is_digit c = (48 \<le> (of_char c :: nat) \<and> (of_char c :: nat) \<le> 57)"

definition decimal :: "string \<Rightarrow> int" where
  "decimal k = foldl (\<lambda>n c. 10 * n + (of_char c - 48)) 0 k"

definition array_index :: "string \<Rightarrow> int option" where
  "array_index k =
     (if k \<noteq> [] \<and> list_all is_digit k \<and> (k = ''0'' \<or> hd k \<noteq> CHR ''0'')
         \<and> decimal k < 4294967295
      then Some (decimal k) else None)"

definition for_in_keys :: "jsobject \<Rightarrow> string list" where
  "for_in_keys obj =
     (let ks = map fst obj
      in sort_key (\<lambda>k. case array_index k of Some n \<Rightarrow> n | None \<Rightarrow> 0)
           (filter (\<lambda>k. array_index k \<noteq> None) ks)
         @ filter (\<lambda>k. array_index k = None) ks)"

subsection \<open>The URL helpers\<close>

text \<open>
  \<^verbatim>\<open>parseURL\<close> assigns the URL to the \<^verbatim>\<open>href\<close> of a fresh anchor element and reads the
  parts that the browser resolved. The browser is not part of the script: the function
  from a URL to the parts of its anchor is the parameter \<open>anchor\<close>.
\<close>

record anchor =
  a_protocol :: string
  a_hostname :: string
  a_port :: string
  a_search :: string
  a_pathname :: string
  a_hash :: string

record urlobject =
  source :: string
  protocol :: string
  host :: string
  port :: string
  params :: jsobject
  file' :: string
  hash :: string
  path :: string

text \<open>\<^verbatim>\<open>replace(/^\?/,'')\<close> (line 610).\<close>

fun strip_question :: "string \<Rightarrow> string" where
  "strip_question [] = []"
| "strip_question (c # cs) = (if c = CHR ''?'' then cs else c # cs)"

text \<open>
  \<^verbatim>\<open>s[i]\<close> on the array of a split: the element, or \<^verbatim>\<open>undefined\<close> behind the end.
\<close>

definition js_nth :: "string list \<Rightarrow> nat \<Rightarrow> jsval" where
  "js_nth xs i = (if i < length xs then Str (xs ! i) else Undefined)"

text \<open>
  Lines 612 to 616: the loop over the segments, with \<^verbatim>\<open>ret[s[0]] = s[1]\<close> for each
  segment that is not empty.
\<close>

fun params_loop :: "string list \<Rightarrow> jsobject \<Rightarrow> jsobject" where
  "params_loop [] ret = ret"
| "params_loop (seg # segs) ret =
     (if seg = [] then params_loop segs ret
      else (let s = js_split ''='' seg
            in params_loop segs (obj_set (to_string (js_nth s 0)) (js_nth s 1) ret)))"

text \<open>A text without the two separators of a query.\<close>

definition plain :: "string \<Rightarrow> bool" where
  "plain t = (CHR ''&'' \<notin> set t \<and> CHR ''='' \<notin> set t)"

text \<open>
  An entry as the loop creates it: the key and a string value are plain, and the key is
  not \<^verbatim>\<open>__proto__\<close>.
\<close>

definition plain_entry :: "string \<times> jsval \<Rightarrow> bool" where
  "plain_entry kv =
     (plain (fst kv) \<and> fst kv \<noteq> ''__proto__''
      \<and> (case snd kv of Undefined \<Rightarrow> True | Str t \<Rightarrow> plain t))"

text \<open>An entry in whose key and value, written as text, the character does not occur.\<close>

definition free_of :: "char \<Rightarrow> string \<times> jsval \<Rightarrow> bool" where
  "free_of c kv = (c \<notin> set (fst kv) \<and> c \<notin> set (to_string (snd kv)))"

definition parse_params :: "string \<Rightarrow> jsobject" where
  "parse_params search = params_loop (js_split ''&'' (strip_question search)) []"

text \<open>
  Line 619, \<^verbatim>\<open>(a.pathname.match(/\/([^/?#]+)$/i) || [,''])[1]\<close>: the text behind the
  last slash when it is not empty and holds neither \<^verbatim>\<open>?\<close> nor \<^verbatim>\<open>#\<close>.
\<close>

definition file_of :: "string \<Rightarrow> string" where
  "file_of pathname =
     (let seg = rev (takeWhile (\<lambda>c. c \<noteq> CHR ''/'') (rev pathname))
      in if CHR ''/'' \<in> set pathname \<and> seg \<noteq> []
            \<and> CHR ''?'' \<notin> set seg \<and> CHR ''#'' \<notin> set seg
         then seg else [])"

text \<open>Line 621, \<^verbatim>\<open>replace(/^([^/])/,'/$1')\<close>.\<close>

fun path_of :: "string \<Rightarrow> string" where
  "path_of [] = []"
| "path_of (c # cs) = (if c = CHR ''/'' then c # cs else CHR ''/'' # c # cs)"

text \<open>
  \<^verbatim>\<open>parseURL\<close> (lines 600 to 623). \<^verbatim>\<open>replace(':','')\<close> and \<^verbatim>\<open>replace('#','')\<close> remove the
  first occurrence of the character.
\<close>

definition parseURL :: "(string \<Rightarrow> anchor) \<Rightarrow> string \<Rightarrow> urlobject" where
  "parseURL anchor url =
     (let a = anchor url
      in \<lparr>source = url,
          protocol = remove1 (CHR '':'') (a_protocol a),
          host = a_hostname a,
          port = a_port a,
          params = parse_params (a_search a),
          file' = file_of (a_pathname a),
          hash = remove1 (CHR ''#'') (a_hash a),
          path = path_of (a_pathname a)\<rparr>)"

text \<open>Lines 632 to 638: the loop over the parameters; the pair is \<^verbatim>\<open>(url, joiner)\<close>.\<close>

fun render_params ::
  "jsobject \<Rightarrow> string list \<Rightarrow> string \<times> string \<Rightarrow> error + string \<times> string" where
  "render_params obj [] uj = Inr uj"
| "render_params obj (prop # props) (url, joiner) =
     (case hasOwnProperty obj prop of
        Inl e \<Rightarrow> Inl e
      | Inr b \<Rightarrow>
          if b then render_params obj props
                      (url @ joiner @ prop @ ''='' @ to_string (obj_get obj prop), ''&'')
          else render_params obj props (url, joiner))"

text \<open>\<^verbatim>\<open>renderURL\<close> (lines 626 to 643).\<close>

definition renderURL :: "urlobject \<Rightarrow> error + string" where
  "renderURL urlobject =
     (let url = protocol urlobject @ ''://'' @ host urlobject;
          url1 = (if port urlobject \<noteq> [] then url @ '':'' @ port urlobject else url);
          url2 = url1 @ path urlobject
      in case render_params (params urlobject) (for_in_keys (params urlobject)) (url2, ''?'') of
           Inl e \<Rightarrow> Inl e
         | Inr (url3, joiner) \<Rightarrow>
             Inr (if hash urlobject \<noteq> [] then url3 @ ''#'' @ hash urlobject else url3))"

text \<open>
  The query that the loop of \<^verbatim>\<open>renderURL\<close> writes for an object whose own keys are all
  rendered: nothing for the empty object, else \<^verbatim>\<open>?\<close> and the pairs joined by \<^verbatim>\<open>&\<close>.
\<close>

definition query_string :: "jsobject \<Rightarrow> string" where
  "query_string obj =
     (if obj = [] then []
      else ''?'' @ js_join ''&''
             (map (\<lambda>k. k @ ''='' @ to_string (obj_get obj k)) (for_in_keys obj)))"

text \<open>
  Modelled from the spec: the anchor element of the browser, which is no code of the
  repository. The spec says that parsing ``splits a URL into protocol, host, port, path,
  ordered query parameters, and fragment''; \<open>simple_anchor\<close> does this for an absolute
  URL of the shape \<^verbatim>\<open>protocol://host[:port][/path][?query][#fragment]\<close> and nothing
  more (no base URL, no default ports, no normalisation). It stands for the browser in
  the closed examples and in the round trip of parsing and rendering; the other general
  theorems hold for every \<open>anchor\<close>.
\<close>

definition simple_anchor :: "string \<Rightarrow> anchor" where
  "simple_anchor url =
     (let before_hash = takeWhile (\<lambda>c. c \<noteq> CHR ''#'') url;
          fragment = drop (Suc (length before_hash)) url;
          before_query = takeWhile (\<lambda>c. c \<noteq> CHR ''?'') before_hash;
          query = drop (Suc (length before_query)) before_hash;
          scheme = takeWhile (\<lambda>c. c \<noteq> CHR '':'') before_query;
          rest = drop (length scheme + 3) before_query;
          authority = takeWhile (\<lambda>c. c \<noteq> CHR ''/'') rest;
          pathname = drop (length authority) rest;
          hostname = takeWhile (\<lambda>c. c \<noteq> CHR '':'') authority
      in \<lparr>a_protocol = scheme @ '':'',
          a_hostname = hostname,
          a_port = drop (Suc (length hostname)) authority,
          a_search = (if query = [] then [] else ''?'' @ query),
          a_pathname = (if pathname = [] then ''/'' else pathname),
          a_hash = (if fragment = [] then [] else ''#'' @ fragment)\<rparr>)"

subsection \<open>Decoding and trimming\<close>

text \<open>
  \<^verbatim>\<open>decodeURIComponent\<close> is a function of the language. It throws \<^verbatim>\<open>URIError\<close> when a
  \<^verbatim>\<open>%\<close> is not followed by two hexadecimal digits, or when the escaped octets from
  \<open>0x80\<close> on are not the UTF-8 encoding of a code point. The model reads the escapes
  first (\<open>tokens\<close>) and checks the octets then (\<open>assemble\<close>); either step fails with
  \<open>None\<close>, which is the \<^verbatim>\<open>URIError\<close>. A decoded code point up to \<open>0xFF\<close> is the
  code unit of that value. A code point above \<open>0xFF\<close> is a code unit (or two) that no
  \<^typ>\<open>char\<close> holds: for it the model keeps the octets of the UTF-8 encoding, so the
  result of the model is the result of the script only up to \<open>0xFF\<close>.
\<close>

datatype token = Lit char | Oct nat

definition hex_val :: "char \<Rightarrow> nat option" where
  "hex_val c =
     (let n = (of_char c :: nat)
      in if 48 \<le> n \<and> n \<le> 57 then Some (n - 48)
         else if 65 \<le> n \<and> n \<le> 70 then Some (n - 55)
         else if 97 \<le> n \<and> n \<le> 102 then Some (n - 87)
         else None)"

fun tokens :: "string \<Rightarrow> token list option" where
  "tokens [] = Some []"
| "tokens (c # cs) =
     (if c \<noteq> CHR ''%'' then map_option ((#) (Lit c)) (tokens cs)
      else (case cs of
              h1 # h2 # rest \<Rightarrow>
                (case (hex_val h1, hex_val h2) of
                   (Some a, Some b) \<Rightarrow> map_option ((#) (Oct (16 * a + b))) (tokens rest)
                 | _ \<Rightarrow> None)
            | _ \<Rightarrow> None))"

definition continuation :: "nat \<Rightarrow> bool" where
  "continuation b = (128 \<le> b \<and> b < 192)"

definition octets :: "nat list \<Rightarrow> string" where
  "octets bs = map char_of bs"

fun assemble :: "token list \<Rightarrow> string option" where
  "assemble [] = Some []"
| "assemble (Lit c # ts) = map_option ((#) c) (assemble ts)"
| "assemble (Oct b # ts) =
     (if b < 128 then map_option ((#) (char_of b)) (assemble ts)
      else if 194 \<le> b \<and> b \<le> 223 then
        (case ts of
           Oct c1 # ts1 \<Rightarrow>
             if continuation c1
             then map_option ((@) (if b \<le> 195 then [char_of ((b - 192) * 64 + (c1 - 128))]
                                   else octets [b, c1]))
                    (assemble ts1)
             else None
         | _ \<Rightarrow> None)
      else if 224 \<le> b \<and> b \<le> 239 then
        (case ts of
           Oct c1 # Oct c2 # ts2 \<Rightarrow>
             if continuation c1 \<and> continuation c2
                \<and> (if b = 224 then 160 \<le> c1 else True)
                \<and> (if b = 237 then c1 < 160 else True)
             then map_option ((@) (octets [b, c1, c2])) (assemble ts2)
             else None
         | _ \<Rightarrow> None)
      else if 240 \<le> b \<and> b \<le> 244 then
        (case ts of
           Oct c1 # Oct c2 # Oct c3 # ts3 \<Rightarrow>
             if continuation c1 \<and> continuation c2 \<and> continuation c3
                \<and> (if b = 240 then 144 \<le> c1 else True)
                \<and> (if b = 244 then c1 < 144 else True)
             then map_option ((@) (octets [b, c1, c2, c3])) (assemble ts3)
             else None
         | _ \<Rightarrow> None)
      else None)"

definition decodeURIComponent :: "string \<Rightarrow> error + string" where
  "decodeURIComponent s =
     (case tokens s of
        None \<Rightarrow> Inl URIError
      | Some ts \<Rightarrow> (case assemble ts of None \<Rightarrow> Inl URIError | Some r \<Rightarrow> Inr r))"

text \<open>\<^verbatim>\<open>replace(/\+/g, '%20')\<close> (line 830).\<close>

definition plus_to_space :: "string \<Rightarrow> string" where
  "plus_to_space s = concat (map (\<lambda>c. if c = CHR ''+'' then ''%20'' else [c]) s)"

text \<open>
  \<^verbatim>\<open>String.prototype.trim\<close>: the white space and the line terminators among the code
  units below 256 are tab, line feed, vertical tab, form feed, carriage return, space and
  the no-break space \<open>0xA0\<close>.
\<close>

definition white_space :: "char \<Rightarrow> bool" where
  "white_space c = ((of_char c :: nat) \<in> {9, 10, 11, 12, 13, 32, 160})"

definition trim :: "string \<Rightarrow> string" where
  "trim s = rev (dropWhile white_space (rev (dropWhile white_space s)))"

text \<open>The decimal numeral of a number, as string concatenation produces it.\<close>

fun number_to_string :: "nat \<Rightarrow> string" where
  "number_to_string n =
     (if n < 10 then [char_of (48 + n)]
      else number_to_string (n div 10) @ [char_of (48 + n mod 10)])"

subsection \<open>The state of the page\<close>

text \<open>
  The options that the script reads from \<^verbatim>\<open>searchoptions\<close> (the other entries are read
  by the index library only), a result of the index, and the index handle: the function
  \<^verbatim>\<open>searchindex.search\<close>.
\<close>

record searchoptions =
  teaser_word_count :: nat
  limit_results :: nat

record search_result =
  result_ref :: string
  doc_body :: string
  doc_breadcrumbs :: string

type_synonym index_handle = "string \<Rightarrow> searchoptions \<Rightarrow> search_result list"

text \<open>
  What the script passes to the history: \<^verbatim>\<open>history.pushState\<close> or
  \<^verbatim>\<open>history.replaceState\<close> with the rendered URL.
\<close>

datatype commit = PushState string | ReplaceState string

text \<open>
  The variables of the closure and the parts of the document that the modelled functions
  read or write. \<open>focus_li\<close> is the position of the result entry with the class
  \<^verbatim>\<open>focus\<close>; \<open>marked\<close> are the words given to the marker and not yet unmarked;
  \<open>lookups\<close> records the terms of the calls of \<^verbatim>\<open>searchindex.search\<close>.
\<close>

record session =
  location_href :: string
  history_log :: "commit list"
  searchindex :: "index_handle option"
  options :: searchoptions
  current_searchterm :: string
  searchbar_value :: string
  searchbar_active :: bool
  searchbar_focus :: bool
  searchbar_outer_display :: string
  searchresults_outer_display :: string
  searchresults_header :: string
  searchresults :: "string list"
  focus_li :: "nat option"
  marked :: "string list"
  lookups :: "string list"

text \<open>
  What the page and the libraries provide: the anchor element, the URL that
  \<^verbatim>\<open>window.location.href\<close> holds after the history was given a URL (the browser
  stores its own serialisation of it), \<^verbatim>\<open>elasticlunr.stemmer\<close> and the global
  \<^verbatim>\<open>path_to_root\<close>.
\<close>

record environment =
  env_anchor :: "string \<Rightarrow> anchor"
  env_href :: "string \<Rightarrow> string"
  env_stemmer :: "string \<Rightarrow> string"
  env_path_to_root :: string

text \<open>
  The values of \<^verbatim>\<open>action\<close> named by the comment in lines 938 to 940: \<^verbatim>\<open>"push"\<close>,
  \<^verbatim>\<open>"replace"\<close> and \<^verbatim>\<open>"push_if_new_search_else_replace"\<close>.
\<close>

datatype action = Push | Replace | PushIfNewSearchElseReplace

definition URL_SEARCH_PARAM :: string where
  "URL_SEARCH_PARAM = ''search''"

definition URL_MARK_PARAM :: string where
  "URL_MARK_PARAM = ''highlight''"

definition SEARCH_HOTKEY_KEYCODE :: nat where
  "SEARCH_HOTKEY_KEYCODE = 83"

definition ESCAPE_KEYCODE :: nat where
  "ESCAPE_KEYCODE = 27"

definition DOWN_KEYCODE :: nat where
  "DOWN_KEYCODE = 40"

definition UP_KEYCODE :: nat where
  "UP_KEYCODE = 38"

definition SELECT_KEYCODE :: nat where
  "SELECT_KEYCODE = 13"

subsection \<open>The query executor\<close>

text \<open>\<^verbatim>\<open>formatSearchMetric\<close> (lines 660 to 668).\<close>

definition formatSearchMetric :: "nat \<Rightarrow> string \<Rightarrow> string" where
  "formatSearchMetric count searchterm =
     (if count = 1 then number_to_string count @ '' search result for '' @ [CHR 0x27]
                         @ searchterm @ [CHR 0x27] @ '':''
      else if count = 0 then ''No search results for '' @ [CHR 0x27] @ searchterm
                         @ [CHR 0x27] @ ''.''
      else number_to_string count @ '' search results for '' @ [CHR 0x27]
             @ searchterm @ [CHR 0x27] @ '':'')"

text \<open>
  \<^verbatim>\<open>formatSearchResult\<close> (lines 670 to 687). The array \<^verbatim>\<open>searchterms\<close> is concatenated
  to a string, which joins its elements with commas.
\<close>

definition formatSearchResult ::
  "environment \<Rightarrow> nat \<Rightarrow> search_result \<Rightarrow> string list \<Rightarrow> string" where
  "formatSearchResult E twc result searchterms =
     (let teaser = makeTeaser (env_stemmer E) twc (escapeHTML (doc_body result)) searchterms;
          url = js_split ''#'' (result_ref result);
          url' = (if length url = 1 then url @ [[]] else url)
      in ''<a href='' @ [CHR 0x22] @ env_path_to_root E @ url' ! 0 @ ''?'' @ URL_MARK_PARAM
           @ ''='' @ js_join '','' searchterms @ ''#'' @ url' ! 1 @ [CHR 0x22] @ ''>''
           @ doc_breadcrumbs result @ ''</a>''
           @ ''<span class='' @ [CHR 0x22] @ ''breadcrumbs'' @ [CHR 0x22] @ ''>'' @ ''</span>''
           @ ''<span class='' @ [CHR 0x22] @ ''teaser'' @ [CHR 0x22] @ ''>'' @ teaser
           @ ''</span>'')"

text \<open>
  \<^verbatim>\<open>doSearch\<close> (lines 961 to 987). \<^verbatim>\<open>removeChildren\<close> empties the list of results, and
  with it the entry that has the class \<^verbatim>\<open>focus\<close>.
\<close>

definition doSearch :: "environment \<Rightarrow> string \<Rightarrow> session \<Rightarrow> session" where
  "doSearch E searchterm s =
     (if current_searchterm s = searchterm then s
      else (let s1 = s\<lparr>current_searchterm := searchterm\<rparr>
            in case searchindex s1 of
                 None \<Rightarrow> s1
               | Some search \<Rightarrow>
                   (let results = search searchterm (options s1);
                        resultcount = min (length results) (limit_results (options s1));
                        searchterms = js_split '' '' searchterm
                    in s1\<lparr>lookups := lookups s1 @ [searchterm],
                          searchresults_header := formatSearchMetric resultcount searchterm,
                          searchresults :=
                            map (\<lambda>r. formatSearchResult E (teaser_word_count (options s1))
                                        r searchterms)
                              (take resultcount results),
                          focus_li := None,
                          searchresults_outer_display := ''block''\<rparr>)))"

subsection \<open>The URL of the search\<close>

text \<open>Lines 944 to 950: the parameters and the fragment of the new URL.\<close>

definition update_params :: "string \<Rightarrow> action \<Rightarrow> urlobject \<Rightarrow> urlobject" where
  "update_params searchterm action url =
     (if searchterm \<noteq> [] \<or> action = PushIfNewSearchElseReplace
      then url\<lparr>params := obj_delete URL_MARK_PARAM
                             (obj_set URL_SEARCH_PARAM (Str searchterm) (params url)),
               hash := []\<rparr>
      else url\<lparr>params := obj_delete URL_SEARCH_PARAM (params url)\<rparr>)"

definition pushState :: "environment \<Rightarrow> string \<Rightarrow> session \<Rightarrow> session" where
  "pushState E url s =
     s\<lparr>location_href := env_href E url, history_log := history_log s @ [PushState url]\<rparr>"

definition replaceState :: "environment \<Rightarrow> string \<Rightarrow> session \<Rightarrow> session" where
  "replaceState E url s =
     s\<lparr>location_href := env_href E url, history_log := history_log s @ [ReplaceState url]\<rparr>"

text \<open>
  \<^verbatim>\<open>setSearchUrlParameters\<close> (lines 941 to 959). An exception leaves the session as it
  was when it was thrown: the result is then \<open>Inl\<close> of the error and that session.
\<close>

definition setSearchUrlParameters ::
  "environment \<Rightarrow> string \<Rightarrow> action \<Rightarrow> session \<Rightarrow> error \<times> session + session" where
  "setSearchUrlParameters E searchterm action s =
     (let url = parseURL (env_anchor E) (location_href s)
      in case hasOwnProperty (params url) URL_SEARCH_PARAM of
           Inl e \<Rightarrow> Inl (e, s)
         | Inr has_search \<Rightarrow>
             (let first_search = \<not> has_search;
                  url' = update_params searchterm action url
              in if action = Push \<or> (action = PushIfNewSearchElseReplace \<and> first_search)
                 then (case renderURL url' of
                         Inl e \<Rightarrow> Inl (e, s)
                       | Inr rendered \<Rightarrow> Inr (pushState E rendered s))
                 else if action = Replace
                         \<or> (action = PushIfNewSearchElseReplace \<and> \<not> first_search)
                 then (case renderURL url' of
                         Inl e \<Rightarrow> Inl (e, s)
                       | Inr rendered \<Rightarrow> Inr (replaceState E rendered s))
                 else Inr s))"

text \<open>\<^verbatim>\<open>searchbarKeyUpHandler\<close> (lines 920 to 935).\<close>

definition searchbarKeyUpHandler :: "environment \<Rightarrow> session \<Rightarrow> error \<times> session + session" where
  "searchbarKeyUpHandler E s =
     (let searchterm = trim (searchbar_value s);
          s1 = (if searchterm \<noteq> [] then doSearch E searchterm (s\<lparr>searchbar_active := True\<rparr>)
                else s\<lparr>searchbar_active := False, searchresults_outer_display := ''none'',
                       searchresults := [], focus_li := None\<rparr>)
      in case setSearchUrlParameters E searchterm PushIfNewSearchElseReplace s1 of
           Inl err \<Rightarrow> Inl err
         | Inr s2 \<Rightarrow> Inr (s2\<lparr>marked := []\<rparr>))"

text \<open>
  \<^verbatim>\<open>doSearchOrMarkFromUrl\<close> (lines 823 to 843). The comparison \<^verbatim>\<open>!= ""\<close> holds for
  \<^verbatim>\<open>undefined\<close>; \<^verbatim>\<open>undefined + ''\<close> is the string \<^verbatim>\<open>undefined\<close>; \<^verbatim>\<open>undefined.split\<close>
  throws.
\<close>

definition doSearchOrMarkFromUrl :: "environment \<Rightarrow> session \<Rightarrow> error \<times> session + session" where
  "doSearchOrMarkFromUrl E s =
     (let url = parseURL (env_anchor E) (location_href s)
      in case hasOwnProperty (params url) URL_SEARCH_PARAM of
           Inl e \<Rightarrow> Inl (e, s)
         | Inr has_search \<Rightarrow>
             (case (if has_search \<and> obj_get (params url) URL_SEARCH_PARAM \<noteq> Str []
                    then (let s1 = s\<lparr>searchbar_outer_display := []\<rparr>
                          in case decodeURIComponent
                                    (plus_to_space
                                       (to_string (obj_get (params url) URL_SEARCH_PARAM))) of
                               Inl e \<Rightarrow> Inl (e, s1)
                             | Inr v \<Rightarrow> searchbarKeyUpHandler E (s1\<lparr>searchbar_value := v\<rparr>))
                    else Inr (s\<lparr>searchbar_outer_display := ''none''\<rparr>)) of
                Inl err \<Rightarrow> Inl err
              | Inr s2 \<Rightarrow>
                  (case hasOwnProperty (params url) URL_MARK_PARAM of
                     Inl e \<Rightarrow> Inl (e, s2)
                   | Inr has_mark \<Rightarrow>
                       if has_mark
                       then (case obj_get (params url) URL_MARK_PARAM of
                               Undefined \<Rightarrow> Inl (TypeError, s2)
                             | Str v \<Rightarrow> Inr (s2\<lparr>marked := marked s2 @ js_split '' '' v\<rparr>))
                       else Inr s2)))"

subsection \<open>The key handler\<close>

record key_event =
  altKey :: bool
  ctrlKey :: bool
  metaKey :: bool
  shiftKey :: bool
  keyCode :: nat

text \<open>
  \<^verbatim>\<open>hasFocus\<close> (lines 589 to 591) and \<^verbatim>\<open>unfocusSearchbar\<close> (lines 813 to 820), which
  moves the focus to a temporary input element and removes that element.
\<close>

definition hasFocus :: "session \<Rightarrow> bool" where
  "hasFocus s = searchbar_focus s"

definition unfocusSearchbar :: "session \<Rightarrow> session" where
  "unfocusSearchbar s = s\<lparr>searchbar_focus := False\<rparr>"

text \<open>
  \<^verbatim>\<open>globalKeyHandler\<close> (lines 846 to 899). \<^verbatim>\<open>preventDefault\<close> acts on the event only.

  Line 871 calls \<^verbatim>\<open>searchresults.children('li')\<close>. \<^verbatim>\<open>searchresults\<close> is the value of
  \<^verbatim>\<open>document.getElementById\<close> (line 558), an element, whose \<^verbatim>\<open>children\<close> is a
  collection and no function: the call throws \<^verbatim>\<open>TypeError\<close>, after line 870 has taken
  the focus from the search bar.
  Line 878 reads \<^verbatim>\<open>search.searchresults.find\<close>. \<^verbatim>\<open>search\<close> is the function of line 550
  (or the object that it returns, lines 990 to 994); neither has a property
  \<^verbatim>\<open>searchresults\<close>, so the read of \<^verbatim>\<open>find\<close> from \<^verbatim>\<open>undefined\<close> throws \<^verbatim>\<open>TypeError\<close>.
  The statements behind the two lines (879 to 897) are never reached.
\<close>

definition globalKeyHandler ::
  "environment \<Rightarrow> key_event \<Rightarrow> session \<Rightarrow> error \<times> session + session" where
  "globalKeyHandler E e s =
     (if altKey e \<or> ctrlKey e \<or> metaKey e \<or> shiftKey e then Inr s
      else if keyCode e = ESCAPE_KEYCODE then
        (let s1 = s\<lparr>searchbar_active := False\<rparr>
         in case setSearchUrlParameters E []
                   (if trim (searchbar_value s1) \<noteq> [] then Push else Replace) s1 of
              Inl err \<Rightarrow> Inl err
            | Inr s2 \<Rightarrow>
                (let s3 = (if hasFocus s2 then unfocusSearchbar s2 else s2)
                 in Inr (s3\<lparr>searchbar_outer_display := ''none'', marked := []\<rparr>)))
      else if \<not> hasFocus s \<and> keyCode e = SEARCH_HOTKEY_KEYCODE then
        Inr (s\<lparr>searchbar_outer_display := [], searchbar_focus := True\<rparr>)
      else if hasFocus s \<and> keyCode e = DOWN_KEYCODE then
        Inl (TypeError, unfocusSearchbar s)
      else if \<not> hasFocus s \<and> (keyCode e = DOWN_KEYCODE \<or> keyCode e = UP_KEYCODE
                                \<or> keyCode e = SELECT_KEYCODE) then
        Inl (TypeError, s)
      else Inr s)"

text \<open>
  A sequence of key events: each event runs the handler on the session that the event
  before it left, whether that handler returned or threw.
\<close>

fun after :: "error \<times> session + session \<Rightarrow> session" where
  "after (Inl (err, s)) = s"
| "after (Inr s) = s"

fun key_events :: "environment \<Rightarrow> key_event list \<Rightarrow> session \<Rightarrow> session" where
  "key_events E [] s = s"
| "key_events E (e # es) s = key_events E es (after (globalKeyHandler E e s))"

definition key :: "nat \<Rightarrow> key_event" where
  "key code = \<lparr>altKey = False, ctrlKey = False, metaKey = False, shiftKey = False,
               keyCode = code\<rparr>"

text \<open>
  The keyboard focus of a session: the search bar, or the result entry with the class
  \<^verbatim>\<open>focus\<close>, or neither.
\<close>

datatype focus_state = Unfocused | SearchbarFocused | ResultFocused nat

definition keyboard_focus :: "session \<Rightarrow> focus_state" where
  "keyboard_focus s =
     (if searchbar_focus s then SearchbarFocused
      else (case focus_li s of None \<Rightarrow> Unfocused | Some i \<Rightarrow> ResultFocused i))"

subsection \<open>Loading\<close>

text \<open>
  The session when the script has run and the index is not loaded yet (lines 565 to
  579), on a page with the given URL, and the assignments of the load handler (lines 796
  and 797).
\<close>

definition initial_session :: "string \<Rightarrow> session" where
  "initial_session url =
     \<lparr>location_href = url, history_log = [], searchindex = None,
      options = \<lparr>teaser_word_count = 30, limit_results = 30\<rparr>,
      current_searchterm = [], searchbar_value = [], searchbar_active = False,
      searchbar_focus = False, searchbar_outer_display = ''none'',
      searchresults_outer_display = ''none'', searchresults_header = [],
      searchresults = [], focus_li = None, marked = [], lookups = []\<rparr>"

definition index_loaded :: "searchoptions \<Rightarrow> index_handle \<Rightarrow> session \<Rightarrow> session" where
  "index_loaded opts search s = s\<lparr>options := opts, searchindex := Some search\<rparr>"

text \<open>
  An environment for the closed examples: the identity stands for the stemmer, and the
  URLs of the examples are their own serialisation.
\<close>

definition example_environment :: environment where
  "example_environment =
     \<lparr>env_anchor = simple_anchor, env_href = (\<lambda>url. url), env_stemmer = (\<lambda>word. word),
      env_path_to_root = []\<rparr>"

section \<open>Properties\<close>

subsection \<open>Splitting and joining\<close>

lemma js_split_nonempty: "sep \<noteq> [] \<Longrightarrow> js_split sep s \<noteq> []"
  by (induction sep s rule: js_split.induct) (auto split: list.splits)

lemma js_join_split: "sep \<noteq> [] \<Longrightarrow> js_join sep (js_split sep s) = s"
proof (induction sep s rule: js_split.induct)
  case (1 sep)
  then show ?case by simp
next
  case (2 sep c cs)
  show ?case
  proof (cases "prefix sep (c # cs)")
    case True
    have eq: "js_split sep (c # cs) = [] # js_split sep (drop (length sep) (c # cs))"
      using True 2(4) by simp
    from 2 True have ih: "js_join sep (js_split sep (drop (length sep) (c # cs))) = drop (length sep) (c # cs)"
      by simp
    from js_split_nonempty[OF 2(4)] obtain p ps where ps: "js_split sep (drop (length sep) (c # cs)) = p # ps"
      by (cases "js_split sep (drop (length sep) (c # cs))") auto
    have "sep @ drop (length sep) (c # cs) = c # cs"
      using True by (metis append_eq_conv_conj prefix_def)
    then show ?thesis unfolding eq using ih ps by simp
  next
    case False
    from 2 False have ih: "js_join sep (js_split sep cs) = cs" by simp
    from js_split_nonempty[OF 2(4)] obtain p ps where ps: "js_split sep cs = p # ps"
      by (cases "js_split sep cs") auto
    show ?thesis using False 2(4) ih ps by (cases ps) auto
  qed
qed

lemma aligned_at: "aligned (pre @ word @ post) (word, v, length pre)"
  by (simp add: aligned_def substring_def offset_def)

lemma words_loop_aligned:
  assumes "body = pre @ js_join '' '' ws @ post" "index s = length pre" "ws \<noteq> []"
    "\<forall>x \<in> set (weighted s). aligned body x"
  shows "(\<forall>x \<in> set (weighted (words_loop stemmer sts ws s)). aligned body x)
       \<and> index (words_loop stemmer sts ws s) = length pre + length (js_join '' '' ws) + 1"
  using assms
proof (induction ws arbitrary: s pre)
  case Nil
  then show ?case by simp
next
  case (Cons word ws)
  define s1 where "s1 = (if length word > 0 then
                  (case terms_loop stemmer sts word (value' s, searchterm_found s) of
                     (v, f) \<Rightarrow> s\<lparr>weighted := weighted s @ [(word, v, index s)],
                                 value' := 2, searchterm_found := f\<rparr>)
                else s)"
  define s2 where "s2 = s1\<lparr>index := index s1 + length word + 1\<rparr>"
  have step: "words_loop stemmer sts (word # ws) s = words_loop stemmer sts ws s2"
    by (simp add: s1_def s2_def Let_def)
  have idx1: "index s1 = index s" by (auto simp: s1_def split: prod.splits)
  obtain post' where body_w: "body = pre @ word @ post'"
    using Cons.prems(1) by (cases ws) auto
  have al1: "\<forall>x \<in> set (weighted s1). aligned body x"
  proof (cases "length word > 0")
    case True
    obtain v f where vf: "terms_loop stemmer sts word (value' s, searchterm_found s) = (v, f)"
      by (cases "terms_loop stemmer sts word (value' s, searchterm_found s)")
    have "aligned body (word, v, index s)"
      using aligned_at[of pre word post' v] body_w Cons.prems(2) by simp
    then show ?thesis using True vf Cons.prems(4) by (auto simp: s1_def)
  next
    case False
    then show ?thesis using Cons.prems(4) by (simp add: s1_def)
  qed
  have al2: "\<forall>x \<in> set (weighted s2). aligned body x" using al1 by (simp add: s2_def)
  show ?case
  proof (cases ws)
    case Nil
    then show ?thesis using step al2 idx1 Cons.prems(2) by (simp add: s2_def)
  next
    case (Cons w2 ws2)
    have b: "body = (pre @ word @ '' '') @ js_join '' '' ws @ post"
      using Cons.prems(1) Cons by simp
    have i: "index s2 = length (pre @ word @ '' '')"
      using idx1 Cons.prems(2) by (simp add: s2_def)
    from Cons.IH[OF b i _ al2] Cons
    show ?thesis using step by simp
  qed
qed


lemma sentences_loop_aligned:
  assumes "body = pre @ js_join ''. '' sens" "index s = length pre"
    "\<forall>x \<in> set (weighted s). aligned body x"
  shows "(\<forall>x \<in> set (weighted (sentences_loop stemmer sts sens s)). aligned body x)
       \<and> (sens \<noteq> [] \<longrightarrow> index (sentences_loop stemmer sts sens s)
                              = length pre + length (js_join ''. '' sens) + 2)"
  using assms
proof (induction sens arbitrary: s pre)
  case Nil
  then show ?case by simp
next
  case (Cons sen rest)
  define post where "post = (if rest = [] then [] else ''. '' @ js_join ''. '' rest)"
  define s1 where "s1 = words_loop stemmer sts (js_split '' '' sen) (s\<lparr>value' := 8\<rparr>)"
  define s2 where "s2 = s1\<lparr>index := index s1 + 1\<rparr>"
  have step: "sentences_loop stemmer sts (sen # rest) s = sentences_loop stemmer sts rest s2"
    by (simp add: s1_def s2_def Let_def)
  have js: "js_join '' '' (js_split '' '' sen) = sen" by (rule js_join_split) simp
  have b: "body = pre @ js_join '' '' (js_split '' '' sen) @ post"
    using Cons.prems(1) by (cases rest) (auto simp: post_def js)
  have ne: "js_split '' '' sen \<noteq> []" by (rule js_split_nonempty) simp
  have "(\<forall>x \<in> set (weighted s1). aligned body x)
       \<and> index s1 = length pre + length (js_join '' '' (js_split '' '' sen)) + 1"
    unfolding s1_def
    by (rule words_loop_aligned[OF b _ ne]) (use Cons.prems in simp_all)
  then have al: "\<forall>x \<in> set (weighted s2). aligned body x"
    and i: "index s2 = length pre + length sen + 2"
    by (simp_all add: s2_def js)
  show ?case
  proof (cases rest)
    case Nil
    then show ?thesis using step al i by simp
  next
    case (Cons r rs)
    have b2: "body = (pre @ sen @ ''. '') @ js_join ''. '' rest"
      using Cons.prems(1) Cons by simp
    have i2: "index s2 = length (pre @ sen @ ''. '')" using i by simp
    from Cons.IH[OF b2 i2 al] show ?thesis unfolding step using Cons by simp
  qed
qed

lemma scan_body_aligned:
  "(\<forall>x \<in> set (weighted (scan_body stemmer body searchterms)). aligned body x)
   \<and> index (scan_body stemmer body searchterms) = length body + 2"
  using sentences_loop_aligned[where pre = "[]" and body = body and sens = "js_split ''. '' body"
      and s = "\<lparr>weighted = [], index = 0, value' = 0, searchterm_found = False\<rparr>"
      and stemmer = stemmer and sts = "map stemmer searchterms"]
    js_split_nonempty[of "''. ''" body]
  unfolding scan_body_def by (simp add: js_join_split)

lemma words_loop_empty_tokens:
  "\<forall>word \<in> set ws. word = [] \<Longrightarrow> weighted (words_loop stemmer sts ws s) = weighted s"
  by (induction ws arbitrary: s) (simp_all add: Let_def)

lemma words_loop_texts:
  "\<forall>x \<in> set (weighted s). fst x \<noteq> [] \<Longrightarrow>
   \<forall>x \<in> set (weighted (words_loop stemmer sts ws s)). fst x \<noteq> []"
proof (induction ws arbitrary: s)
  case Nil
  then show ?case by simp
next
  case (Cons word ws)
  show ?case
    unfolding words_loop.simps Let_def
    by (rule Cons.IH) (use Cons.prems in \<open>auto split: prod.splits\<close>)
qed

lemma sentences_loop_texts:
  "\<forall>x \<in> set (weighted s). fst x \<noteq> [] \<Longrightarrow>
   \<forall>x \<in> set (weighted (sentences_loop stemmer sts sens s)). fst x \<noteq> []"
proof (induction sens arbitrary: s)
  case Nil
  then show ?case by simp
next
  case (Cons sen rest)
  have "\<forall>x \<in> set (weighted (words_loop stemmer sts (js_split '' '' sen) (s\<lparr>value' := 8\<rparr>))).
          fst x \<noteq> []"
    by (rule words_loop_texts) (use Cons.prems in simp)
  then show ?case
    unfolding sentences_loop.simps Let_def
    by (intro Cons.IH) simp
qed

subsection \<open>The windows of the teaser\<close>

lemma terms_loop_value:
  "terms_loop stemmer sts word (v, f) = (v', f') \<Longrightarrow> v' = v \<or> v' = 40"
  by (induction sts arbitrary: v f) (auto simp: searchterm_weight_def split: if_splits)

lemma words_loop_weights:
  assumes "\<forall>x \<in> set (weighted s). weight x \<in> {2, 8, 40}" "value' s \<in> {2, 8, 40}"
  shows "\<forall>x \<in> set (weighted (words_loop stemmer sts ws s)). weight x \<in> {2, 8, 40}"
  using assms
proof (induction ws arbitrary: s)
  case Nil
  then show ?case by simp
next
  case (Cons word ws)
  show ?case
    unfolding words_loop.simps Let_def
    by (rule Cons.IH) (use Cons.prems in \<open>auto split: prod.splits dest: terms_loop_value simp: weight_def\<close>)
qed

lemma sentences_loop_weights:
  assumes "\<forall>x \<in> set (weighted s). weight x \<in> {2, 8, 40}"
  shows "\<forall>x \<in> set (weighted (sentences_loop stemmer sts sens s)). weight x \<in> {2, 8, 40}"
  using assms
proof (induction sens arbitrary: s)
  case Nil
  then show ?case by simp
next
  case (Cons sen rest)
  have "\<forall>x \<in> set (weighted (words_loop stemmer sts (js_split '' '' sen) (s\<lparr>value' := 8\<rparr>))).
          weight x \<in> {2, 8, 40}"
    by (rule words_loop_weights) (use Cons.prems in simp_all)
  then show ?case
    unfolding sentences_loop.simps Let_def
    by (intro Cons.IH) simp
qed

lemma scan_body_weights:
  "\<forall>x \<in> set (weighted (scan_body stemmer body searchterms)). weight x \<in> {2, 8, 40}"
  unfolding scan_body_def by (rule sentences_loop_weights) simp

lemma first_window_sum:
  "wordindex \<le> window_size \<Longrightarrow>
   first_window w window_size wordindex cur_sum
     = cur_sum + (\<Sum>j = wordindex..<window_size. weight (w ! j))"
proof (induction w window_size wordindex cur_sum rule: first_window.induct)
  case (1 w window_size wordindex cur_sum)
  show ?case
  proof (cases "wordindex < window_size")
    case True
    then show ?thesis
      using 1 by (subst first_window.simps) (simp add: sum.atLeast_Suc_lessThan)
  next
    case False
    then show ?thesis using 1 by (subst first_window.simps) simp
  qed
qed

lemma window_sum_slide:
  "window_sum w window_size (Suc i)
     = window_sum w window_size i - weight (w ! i) + weight (w ! (i + window_size))"
  unfolding window_sum_def
  by (induction window_size) (simp_all add: add.commute)

lemma window_loop_sums:
  "wordindex \<le> length w - window_size \<Longrightarrow> cur_sum = window_sum w window_size wordindex \<Longrightarrow>
   window_loop w window_size wordindex cur_sum window_weight
     = window_weight @ map (window_sum w window_size) [Suc wordindex..<Suc (length w - window_size)]"
proof (induction w window_size wordindex cur_sum window_weight rule: window_loop.induct)
  case (1 w window_size wordindex cur_sum window_weight)
  show ?case
  proof (cases "wordindex < length w - window_size")
    case True
    have "window_loop w window_size wordindex cur_sum window_weight
            = window_loop w window_size (Suc wordindex) (window_sum w window_size (Suc wordindex))
                (window_weight @ [window_sum w window_size (Suc wordindex)])"
      using True 1(3) by (subst window_loop.simps) (simp add: window_sum_slide Let_def)
    also have "\<dots> = (window_weight @ [window_sum w window_size (Suc wordindex)])
             @ map (window_sum w window_size) [Suc (Suc wordindex)..<Suc (length w - window_size)]"
      using True 1(3) by (intro 1(1)) (simp_all add: window_sum_slide)
    also have "\<dots> = window_weight @ map (window_sum w window_size) [Suc wordindex..<Suc (length w - window_size)]"
      using upt_conv_Cons[of "Suc wordindex" "Suc (length w - window_size)"] True by simp
    finally show ?thesis .
  next
    case False
    then have "wordindex = length w - window_size" using 1(2) by simp
    then show ?thesis by (subst window_loop.simps) simp
  qed
qed

lemma window_weights_eq:
  "window_weights w window_size
     = map (window_sum w window_size) [0..<Suc (length w - window_size)]"
proof -
  have f: "first_window w window_size 0 0 = window_sum w window_size 0"
    by (simp add: first_window_sum window_sum_def lessThan_atLeast0)
  show ?thesis
    unfolding window_weights_def Let_def f
    by (subst window_loop_sums) (simp_all add: upt_conv_Cons del: upt_Suc)
qed

lemma max_loop_spec:
  "k \<le> length ww \<Longrightarrow> max_loop ww k (m, mi) = (m', mi') \<Longrightarrow>
   m \<le> m' \<and> (\<forall>i<k. ww ! i \<le> m') \<and>
   ((m' = m \<and> mi' = mi) \<or>
    (mi' < k \<and> ww ! mi' = m' \<and> m < m' \<and> (\<forall>i. mi' < i \<and> i < k \<longrightarrow> ww ! i < m')))"
proof (induction k arbitrary: m mi)
  case 0
  then show ?case by simp
next
  case (Suc k)
  show ?case
  proof (cases "ww ! k > m")
    case True
    with Suc.prems have r: "max_loop ww k (ww ! k, k) = (m', mi')" by simp
    from Suc.IH[OF _ r] Suc.prems(1)
    have ih: "ww ! k \<le> m'" "\<forall>i<k. ww ! i \<le> m'"
      "(m' = ww ! k \<and> mi' = k) \<or>
       (mi' < k \<and> ww ! mi' = m' \<and> ww ! k < m' \<and> (\<forall>i. mi' < i \<and> i < k \<longrightarrow> ww ! i < m'))"
      by simp_all
    have a: "\<forall>i<Suc k. ww ! i \<le> m'" using ih(1,2) by (auto simp: less_Suc_eq)
    from ih(3) have b: "mi' < Suc k \<and> ww ! mi' = m' \<and> m < m'
         \<and> (\<forall>i. mi' < i \<and> i < Suc k \<longrightarrow> ww ! i < m')"
      using True ih(1) by (auto simp: less_Suc_eq)
    have c: "m \<le> m'" using True ih(1) by linarith
    show ?thesis using a b c by blast
  next
    case False
    with Suc.prems have r: "max_loop ww k (m, mi) = (m', mi')" by simp
    from Suc.IH[OF _ r] Suc.prems(1)
    have ih: "m \<le> m'" "\<forall>i<k. ww ! i \<le> m'"
      "(m' = m \<and> mi' = mi) \<or>
       (mi' < k \<and> ww ! mi' = m' \<and> m < m' \<and> (\<forall>i. mi' < i \<and> i < k \<longrightarrow> ww ! i < m'))"
      by simp_all
    have a: "\<forall>i<Suc k. ww ! i \<le> m'" using ih(1,2) False by (auto simp: less_Suc_eq)
    from ih(3) have b: "(m' = m \<and> mi' = mi) \<or> (mi' < Suc k \<and> ww ! mi' = m' \<and> m < m'
         \<and> (\<forall>i. mi' < i \<and> i < Suc k \<longrightarrow> ww ! i < m'))"
      using False by (auto simp: less_Suc_eq)
    show ?thesis using a b ih(1) by blast
  qed
qed

lemma select_window_last_max:
  assumes "ww \<noteq> []" "\<forall>x \<in> set ww. 0 < x"
  shows "select_window True ww < length ww
       \<and> (\<forall>i < length ww. ww ! i \<le> ww ! select_window True ww
              \<and> (ww ! i = ww ! select_window True ww \<longrightarrow> i \<le> select_window True ww))"
proof -
  obtain m' mi' where r: "max_loop ww (length ww) (0, 0) = (m', mi')"
    by (cases "max_loop ww (length ww) (0, 0)")
  from max_loop_spec[OF _ r]
  have s: "\<forall>i<length ww. ww ! i \<le> m'"
    "(m' = 0 \<and> mi' = 0) \<or>
       (mi' < length ww \<and> ww ! mi' = m' \<and> 0 < m' \<and> (\<forall>i. mi' < i \<and> i < length ww \<longrightarrow> ww ! i < m'))"
    by simp_all
  have "0 < ww ! 0" using assms by (cases ww) auto
  moreover have "ww ! 0 \<le> m'" using s(1) assms(1) by simp
  ultimately have "m' \<noteq> 0" by simp
  with s(2) have t: "mi' < length ww" "ww ! mi' = m'" "\<forall>i. mi' < i \<and> i < length ww \<longrightarrow> ww ! i < m'"
    by simp_all
  have sel: "select_window True ww = mi'" by (simp add: select_window_def r)
  show ?thesis unfolding sel using t s(1) by (metis not_le_imp_less order_less_irrefl)
qed

lemma terms_loop_result:
  "terms_loop stemmer sts word (v, f)
     = (if \<exists>t \<in> set sts. prefix t (stemmer word) then (searchterm_weight, True) else (v, f))"
  by (induction sts arbitrary: v f) auto

lemma words_loop_found:
  assumes "searchterm_found s \<longleftrightarrow> (\<exists>x \<in> set (weighted s). weight x = searchterm_weight)"
    and "value' s \<noteq> searchterm_weight"
  shows "searchterm_found (words_loop stemmer sts ws s)
           \<longleftrightarrow> (\<exists>x \<in> set (weighted (words_loop stemmer sts ws s)). weight x = searchterm_weight)"
  using assms
proof (induction ws arbitrary: s)
  case Nil
  then show ?case by simp
next
  case (Cons word ws)
  define s1 where "s1 = (if length word > 0 then
                  (case terms_loop stemmer sts word (value' s, searchterm_found s) of
                     (v, f) \<Rightarrow> s\<lparr>weighted := weighted s @ [(word, v, index s)],
                                 value' := 2, searchterm_found := f\<rparr>)
                else s)"
  define s2 where "s2 = s1\<lparr>index := index s1 + length word + 1\<rparr>"
  have step: "words_loop stemmer sts (word # ws) s = words_loop stemmer sts ws s2"
    by (simp add: s1_def s2_def Let_def)
  have a: "searchterm_found s1 \<longleftrightarrow> (\<exists>x \<in> set (weighted s1). weight x = searchterm_weight)"
    using Cons.prems
    by (auto simp: s1_def terms_loop_result weight_def)
  have b: "value' s1 \<noteq> searchterm_weight"
    using Cons.prems(2) by (auto simp: s1_def terms_loop_result searchterm_weight_def)
  show ?case unfolding step
    by (rule Cons.IH) (use a b in \<open>simp_all add: s2_def\<close>)
qed

lemma sentences_loop_found:
  assumes "searchterm_found s \<longleftrightarrow> (\<exists>x \<in> set (weighted s). weight x = searchterm_weight)"
  shows "searchterm_found (sentences_loop stemmer sts sens s)
           \<longleftrightarrow> (\<exists>x \<in> set (weighted (sentences_loop stemmer sts sens s)).
                 weight x = searchterm_weight)"
  using assms
proof (induction sens arbitrary: s)
  case Nil
  then show ?case by simp
next
  case (Cons sen rest)
  define s1 where "s1 = words_loop stemmer sts (js_split '' '' sen) (s\<lparr>value' := 8\<rparr>)"
  have step: "sentences_loop stemmer sts (sen # rest) s
                = sentences_loop stemmer sts rest (s1\<lparr>index := index s1 + 1\<rparr>)"
    by (simp add: s1_def Let_def)
  have "searchterm_found s1 \<longleftrightarrow> (\<exists>x \<in> set (weighted s1). weight x = searchterm_weight)"
    unfolding s1_def
    by (rule words_loop_found) (use Cons.prems in \<open>simp_all add: searchterm_weight_def\<close>)
  then show ?case unfolding step by (intro Cons.IH) simp
qed

lemma scan_body_found:
  "searchterm_found (scan_body stemmer body searchterms)
     \<longleftrightarrow> (\<exists>x \<in> set (weighted (scan_body stemmer body searchterms)). weight x = searchterm_weight)"
  unfolding scan_body_def by (rule sentences_loop_found) simp

subsection \<open>The claims about the teaser\<close>

text \<open>
  Claim C8. Every triple that the scan of \<^verbatim>\<open>makeTeaser\<close> records is aligned with the
  body: the text is not empty and \<^verbatim>\<open>body.substring(offset, offset + text.length)\<close> is
  the text, in every sentence. The scan ends with \<^verbatim>\<open>index\<close> two behind the end of the
  body, so each sentence has accounted for the two characters of its separator. A
  sentence whose tokens are all empty adds no triple.
\<close>

theorem makeTeaser_offsets_aligned:
  "(\<forall>x \<in> set (weighted (scan_body stemmer body searchterms)).
       fst x \<noteq> [] \<and> substring body (offset x) (offset x + length (fst x)) = fst x)
   \<and> index (scan_body stemmer body searchterms) = length body + 2
   \<and> ((\<forall>word \<in> set (js_split '' '' sentence). word = []) \<longrightarrow>
        weighted (words_loop stemmer sts (js_split '' '' sentence) s) = weighted s)"
proof -
  have "\<forall>x \<in> set (weighted (scan_body stemmer body searchterms)). fst x \<noteq> []"
    unfolding scan_body_def by (rule sentences_loop_texts) simp
  then show ?thesis
    using scan_body_aligned[of stemmer body searchterms] words_loop_empty_tokens
    by (auto simp: aligned_def)
qed

theorem makeTeaser_offsets_aligned_witness:
  "weighted (scan_body (\<lambda>w. w) ''Hi.   . ok go'' [''ok'']) = [(''Hi'', 8, 0), (''ok'', 40, 8), (''go'', 2, 11)]
   \<and> substring ''Hi.   . ok go'' 8 10 = ''ok''
   \<and> js_split '' '' ''  '' = [[], [], []]
   \<and> weighted (words_loop (\<lambda>w. w) [''ok''] (js_split '' '' ''  '')
        \<lparr>weighted = [(''Hi'', 8, 0)], index = 4, value' = 8, searchterm_found = False\<rparr>) = [(''Hi'', 8, 0)]"
proof -
  have e: "weighted (scan_body (\<lambda>w. w) ''Hi.   . ok go'' [''ok'']) = [(''Hi'', 8, 0), (''ok'', 40, 8), (''go'', 2, 11)]"
    by code_simp
  have h: "js_split '' '' ''  '' = [[], [], []]" by code_simp
  show ?thesis
    using makeTeaser_offsets_aligned[of "\<lambda>w. w" "''Hi.   . ok go''" "[''ok'']" "''  ''" "[''ok'']"
        "\<lparr>weighted = [(''Hi'', 8, 0)], index = 4, value' = 8, searchterm_found = False\<rparr>"] e h
    by (simp add: offset_def)
qed

text \<open>
  Claim C1. For a body with at least one word and a positive
  \<^verbatim>\<open>teaser_word_count\<close>, the selected window lies inside the words; when a search
  term was found its weight sum is maximal among all windows of \<open>window_size\<close> words
  and every window of the same sum starts at the same or at a lower index; when no
  search term was found the window starts at index 0. A search term was found exactly
  when some word carries the weight of a match.
\<close>

theorem makeTeaser_selects_last_maximal_window:
  assumes "weighted (scan_body stemmer body searchterms) \<noteq> []" and "0 < word_count"
  shows "let s = scan_body stemmer body searchterms;
             w = weighted s;
             window_size = min (length w) word_count;
             m = max_sum_window_index stemmer word_count body searchterms
         in m + window_size \<le> length w
          \<and> (searchterm_found s \<longrightarrow>
               (\<forall>i. i + window_size \<le> length w \<longrightarrow>
                  window_sum w window_size i \<le> window_sum w window_size m
                  \<and> (window_sum w window_size i = window_sum w window_size m \<longrightarrow> i \<le> m)))
          \<and> (\<not> searchterm_found s \<longrightarrow> m = 0)
          \<and> (searchterm_found s \<longleftrightarrow> (\<exists>x \<in> set w. weight x = searchterm_weight))"
proof -
  define s where "s = scan_body stemmer body searchterms"
  define w where "w = weighted s"
  define window_size where "window_size = min (length w) word_count"
  define ww where "ww = window_weights w window_size"
  define m where "m = max_sum_window_index stemmer word_count body searchterms"
  have m: "m = select_window (searchterm_found s) ww"
    by (simp add: m_def max_sum_window_index_def s_def w_def window_size_def ww_def Let_def)
  have ws: "0 < window_size" "window_size \<le> length w"
    using assms by (simp_all add: window_size_def w_def s_def)
  have wpos: "\<forall>x \<in> set w. 0 < weight x"
    using scan_body_weights[of stemmer body searchterms] by (auto simp: w_def s_def)
  have ww: "ww = map (window_sum w window_size) [0..<Suc (length w - window_size)]"
    by (simp add: ww_def window_weights_eq)
  have len: "length ww = Suc (length w - window_size)" by (simp add: ww)
  have nth: "ww ! i = window_sum w window_size i" if "i + window_size \<le> length w" for i
  proof -
    have "i < Suc (length w - window_size)" using that by simp
    then show ?thesis unfolding ww by (simp only: nth_map length_upt nth_upt) simp
  qed
  have pos: "0 < window_sum w window_size i" if "i + window_size \<le> length w" for i
    unfolding window_sum_def
  proof (rule sum_pos)
    show "finite {..<window_size}" by simp
    show "{..<window_size} \<noteq> {}" using ws(1) by auto
    fix j assume "j \<in> {..<window_size}"
    then have "i + j < length w" using that by simp
    then show "0 < weight (w ! (i + j))" using wpos by simp
  qed
  have allpos: "\<forall>x \<in> set ww. 0 < x"
  proof
    fix x assume "x \<in> set ww"
    then obtain i where "i < length ww" "x = ww ! i" by (auto simp: in_set_conv_nth)
    then show "0 < x" using nth[of i] pos[of i] len ws(2) by simp
  qed
  have ne: "ww \<noteq> []" using len by auto
  have flag: "searchterm_found s \<longleftrightarrow> (\<exists>x \<in> set w. weight x = searchterm_weight)"
    unfolding s_def w_def by (rule scan_body_found)
  have zero: "m + window_size \<le> length w" if "\<not> searchterm_found s"
    using that ws(2) by (simp add: m select_window_def)
  have found: "m + window_size \<le> length w
      \<and> (\<forall>i. i + window_size \<le> length w \<longrightarrow>
                  window_sum w window_size i \<le> window_sum w window_size m
                  \<and> (window_sum w window_size i = window_sum w window_size m \<longrightarrow> i \<le> m))"
    if f: "searchterm_found s"
  proof -
    from select_window_last_max[OF ne allpos] f
    have a: "m < length ww"
      and b: "\<forall>i<length ww. ww ! i \<le> ww ! m \<and> (ww ! i = ww ! m \<longrightarrow> i \<le> m)"
      by (simp_all add: m)
    have mm: "m + window_size \<le> length w" using a len ws(2) by simp
    show ?thesis
    proof (intro conjI allI impI)
      show "m + window_size \<le> length w" by (rule mm)
    next
      fix i assume i: "i + window_size \<le> length w"
      then have "i < length ww" using len by simp
      with b have "ww ! i \<le> ww ! m" by simp
      then show "window_sum w window_size i \<le> window_sum w window_size m"
        using nth[OF i] nth[OF mm] by simp
    next
      fix i assume i: "i + window_size \<le> length w"
        and e: "window_sum w window_size i = window_sum w window_size m"
      then have "i < length ww" using len by simp
      with b e show "i \<le> m" using nth[OF i] nth[OF mm] by simp
    qed
  qed
  have "m + window_size \<le> length w
          \<and> (searchterm_found s \<longrightarrow>
               (\<forall>i. i + window_size \<le> length w \<longrightarrow>
                  window_sum w window_size i \<le> window_sum w window_size m
                  \<and> (window_sum w window_size i = window_sum w window_size m \<longrightarrow> i \<le> m)))
          \<and> (\<not> searchterm_found s \<longrightarrow> m = 0)
          \<and> (searchterm_found s \<longleftrightarrow> (\<exists>x \<in> set w. weight x = searchterm_weight))"
    using found zero flag by (auto simp: m select_window_def)
  then show ?thesis
    unfolding Let_def s_def[symmetric] w_def[symmetric] window_size_def[symmetric] m_def[symmetric] .
qed

theorem makeTeaser_selects_last_maximal_window_witness:
  "weighted (scan_body (\<lambda>w. w) ''a b b a'' [''a'']) \<noteq> [] \<and> (0::nat) < 2
   \<and> searchterm_found (scan_body (\<lambda>w. w) ''a b b a'' [''a''])
   \<and> window_sum (weighted (scan_body (\<lambda>w. w) ''a b b a'' [''a''])) 2 0
       = window_sum (weighted (scan_body (\<lambda>w. w) ''a b b a'' [''a''])) 2 2
   \<and> max_sum_window_index (\<lambda>w. w) 2 ''a b b a'' [''a''] = 2
   \<and> \<not> searchterm_found (scan_body (\<lambda>w. w) ''a b b a'' [''c''])
   \<and> max_sum_window_index (\<lambda>w. w) 2 ''a b b a'' [''c''] = 0"
proof -
  have e: "scan_body (\<lambda>w. w) ''a b b a'' [''a'']
             = \<lparr>weighted = [(''a'', 40, 0), (''b'', 2, 2), (''b'', 2, 4), (''a'', 40, 6)], index = 9,
                value' = 2, searchterm_found = True\<rparr>"
    by code_simp
  have f: "scan_body (\<lambda>w. w) ''a b b a'' [''c'']
             = \<lparr>weighted = [(''a'', 8, 0), (''b'', 2, 2), (''b'', 2, 4), (''a'', 2, 6)], index = 9,
                value' = 2, searchterm_found = False\<rparr>"
    by code_simp
  have m: "max_sum_window_index (\<lambda>w. w) 2 ''a b b a'' [''a''] = 2" by code_simp
  have s: "window_sum [(''a'', 40, 0), (''b'', 2, 2), (''b'', 2, 4), (''a'', 40, 6)] 2 0 = 42"
    "window_sum [(''a'', 40, 0), (''b'', 2, 2), (''b'', 2, 4), (''a'', 40, 6)] 2 2 = 42"
    by (simp_all add: window_sum_def weight_def lessThan_Suc numeral_2_eq_2)
  have h1: "weighted (scan_body (\<lambda>w. w) ''a b b a'' [''a'']) \<noteq> []" by (simp add: e)
  have h2: "weighted (scan_body (\<lambda>w. w) ''a b b a'' [''c'']) \<noteq> []" by (simp add: f)
  have h3: "(0::nat) < 2" by simp
  show ?thesis
    using makeTeaser_selects_last_maximal_window[OF h1 h3]
      makeTeaser_selects_last_maximal_window[OF h2 h3]
    by (simp add: e f m s Let_def)
qed

subsection \<open>Own properties\<close>

lemma has_own_obj_update [simp]:
  "has_own (obj_update k v obj) k' \<longleftrightarrow> k' = k \<or> has_own obj k'"
  by (induction obj) (auto simp: has_own_def split: if_splits)

lemma obj_get_obj_update [simp]:
  "obj_get (obj_update k v obj) k' = (if k' = k then v else obj_get obj k')"
  by (induction obj) (auto simp: obj_get_def)

lemma has_own_obj_set:
  "has_own (obj_set k v obj) k' \<longleftrightarrow> (k \<noteq> ''__proto__'' \<and> k' = k) \<or> has_own obj k'"
  by (simp add: obj_set_def)

lemma has_own_obj_delete [simp]:
  "has_own (obj_delete k obj) k' \<longleftrightarrow> k' \<noteq> k \<and> has_own obj k'"
  by (induction obj) (auto simp: has_own_def obj_delete_def)

lemma obj_get_obj_delete [simp]:
  "k' \<noteq> k \<Longrightarrow> obj_get (obj_delete k obj) k' = obj_get obj k'"
  by (induction obj) (auto simp: obj_get_def obj_delete_def)

lemma render_params_returns:
  "\<not> has_own obj ''hasOwnProperty'' \<Longrightarrow> \<exists>r. render_params obj props uj = Inr r"
  by (induction obj props uj rule: render_params.induct) (auto simp: hasOwnProperty_def)

lemma renderURL_returns:
  assumes "\<not> has_own (params url) ''hasOwnProperty''"
  shows "\<exists>rendered. renderURL url = Inr rendered"
proof -
  define url2 where "url2 = (if port url \<noteq> []
                 then (protocol url @ ''://'' @ host url) @ '':'' @ port url
                 else protocol url @ ''://'' @ host url) @ path url"
  obtain u j where "render_params (params url) (for_in_keys (params url)) (url2, ''?'') = Inr (u, j)"
    using render_params_returns[OF assms, of "for_in_keys (params url)" "(url2, ''?'')"] by auto
  then show ?thesis
    unfolding renderURL_def Let_def url2_def[symmetric] by simp
qed

lemma update_params_no_shadow:
  "\<not> has_own (params url) ''hasOwnProperty'' \<Longrightarrow>
   \<not> has_own (params (update_params searchterm action url)) ''hasOwnProperty''"
  by (simp add: update_params_def has_own_obj_set URL_SEARCH_PARAM_def URL_MARK_PARAM_def)

subsection \<open>Splitting at a character\<close>

lemma js_split_subset:
  "p \<in> set (js_split sep s) \<Longrightarrow> set p \<subseteq> set s"
proof (induction sep s arbitrary: p rule: js_split.induct)
  case (1 sep)
  then show ?case by (simp split: if_splits)
next
  case (2 sep c cs)
  show ?case
  proof (cases "sep = []")
    case True
    with 2 show ?thesis by auto
  next
    case ne: False
    show ?thesis
    proof (cases "prefix sep (c # cs)")
      case True
      with 2 ne have "p = [] \<or> set p \<subseteq> set (drop (length sep) (c # cs))" by auto
      then show ?thesis using set_drop_subset[of "length sep" "c # cs"] by auto
    next
      case False
      obtain q qs where q: "js_split sep cs = q # qs"
        using js_split_nonempty[OF ne, of cs] by (cases "js_split sep cs") auto
      with 2 ne False have pq: "p = c # q \<or> p \<in> set qs" by auto
      have ih: "set p' \<subseteq> set cs" if "p' \<in> set (q # qs)" for p'
        using 2(3)[OF ne False, of p'] q that by simp
      from pq show ?thesis
      proof
        assume "p = c # q"
        then show ?thesis using ih[of q] by auto
      next
        assume "p \<in> set qs"
        then show ?thesis using ih[of p] by auto
      qed
    qed
  qed
qed

lemma js_split_char_free:
  "p \<in> set (js_split [c] s) \<Longrightarrow> c \<notin> set p"
proof (induction "[c]" s arbitrary: p rule: js_split.induct)
  case 1
  then show ?case by simp
next
  case (2 d ds)
  show ?case
  proof (cases "d = c")
    case True
    with 2 show ?thesis by auto
  next
    case False
    obtain q qs where q: "js_split [c] ds = q # qs"
      using js_split_nonempty[of "[c]" ds] by (cases "js_split [c] ds") auto
    with 2(4) False have "p = d # q \<or> p \<in> set qs" by auto
    then show ?thesis using 2(3) q False by auto
  qed
qed

lemma js_split_no_separator:
  "c \<notin> set x \<Longrightarrow> js_split [c] x = [x]"
  by (induction x) auto

lemma js_split_append:
  "c \<notin> set x \<Longrightarrow> js_split [c] (x @ c # rest) = x # js_split [c] rest"
  by (induction x) auto

lemma js_split_join:
  "xs \<noteq> [] \<Longrightarrow> \<forall>x \<in> set xs. c \<notin> set x \<Longrightarrow> js_split [c] (js_join [c] xs) = xs"
proof (induction "[c]" xs rule: js_join.induct)
  case 1
  then show ?case by simp
next
  case (2 x)
  then show ?case by (simp add: js_split_no_separator)
next
  case (3 x y ys)
  then show ?case by (simp add: js_split_append)
qed


subsection \<open>The parameters of a URL\<close>

lemma map_of_obj_update:
  "map_of (obj_update k v obj) = (map_of obj)(k \<mapsto> v)"
  by (induction obj) (auto simp: fun_eq_iff)

lemma map_of_obj_set:
  "k \<noteq> ''__proto__'' \<Longrightarrow> map_of (obj_set k v obj) = (map_of obj)(k \<mapsto> v)"
  by (simp add: obj_set_def map_of_obj_update)

lemma set_obj_update:
  "set (obj_update k v obj) \<subseteq> insert (k, v) (set obj)"
  by (induction obj) (auto split: if_splits)

lemma set_obj_set:
  "set (obj_set k v obj) \<subseteq> (if k = ''__proto__'' then set obj else insert (k, v) (set obj))"
  using set_obj_update[of k v obj] by (simp add: obj_set_def)

lemma obj_set_entries:
  "kv \<in> set (obj_set k v ret) \<Longrightarrow> kv \<in> set ret \<or> (kv = (k, v) \<and> k \<noteq> ''__proto__'')"
  using set_obj_set[of k v ret] by (auto split: if_splits)

lemma js_nth_split_plain:
  assumes "CHR ''&'' \<notin> set seg"
  shows "plain (to_string (js_nth (js_split ''='' seg) 0))"
    and "js_nth (js_split ''='' seg) 1 = Str t \<Longrightarrow> plain t"
proof -
  have p: "plain x" if "x \<in> set (js_split ''='' seg)" for x
    using js_split_subset[OF that] js_split_char_free[OF that] assms by (auto simp: plain_def)
  have ne: "js_split ''='' seg \<noteq> []" by (rule js_split_nonempty) simp
  then have "js_split ''='' seg ! 0 \<in> set (js_split ''='' seg)" by (cases "js_split ''='' seg") auto
  then show "plain (to_string (js_nth (js_split ''='' seg) 0))"
    using p ne by (simp add: js_nth_def)
  show "plain t" if "js_nth (js_split ''='' seg) 1 = Str t"
    using that p by (auto simp: js_nth_def split: if_splits)
qed


lemma params_loop_entries:
  assumes "\<forall>seg \<in> set segs. CHR ''&'' \<notin> set seg"
    and "\<forall>kv \<in> set ret. plain_entry kv"
  shows "\<forall>kv \<in> set (params_loop segs ret). plain_entry kv"
  using assms
proof (induction segs arbitrary: ret)
  case Nil
  then show ?case by simp
next
  case (Cons seg segs)
  have rest: "\<forall>seg \<in> set segs. CHR ''&'' \<notin> set seg" using Cons.prems(1) by simp
  show ?case
  proof (cases "seg = []")
    case True
    then have step: "params_loop (seg # segs) ret = params_loop segs ret" by simp
    show ?thesis unfolding step by (rule Cons.IH[OF rest Cons.prems(2)])
  next
    case False
    define k where "k = to_string (js_nth (js_split ''='' seg) 0)"
    define v where "v = js_nth (js_split ''='' seg) 1"
    have step: "params_loop (seg # segs) ret = params_loop segs (obj_set k v ret)"
      using False by (simp add: Let_def k_def v_def)
    have amp: "CHR ''&'' \<notin> set seg" using Cons.prems(1) by simp
    have pk: "plain k" unfolding k_def by (rule js_nth_split_plain(1)[OF amp])
    have pv: "plain t" if "v = Str t" for t
      using that unfolding v_def by (rule js_nth_split_plain(2)[OF amp])
    have new: "plain_entry (k, v)" if "k \<noteq> ''__proto__''"
      using that pk pv by (cases v) (simp_all add: plain_entry_def)
    have "\<forall>kv \<in> set (obj_set k v ret). plain_entry kv"
    proof
      fix kv assume "kv \<in> set (obj_set k v ret)"
      then consider "kv \<in> set ret" | "kv = (k, v)" "k \<noteq> ''__proto__''"
        using obj_set_entries by blast
      then show "plain_entry kv"
      proof cases
        case 1
        then show ?thesis using Cons.prems(2) by blast
      next
        case 2
        then show ?thesis using new by simp
      qed
    qed
    then show ?thesis unfolding step by (rule Cons.IH[OF rest])
  qed
qed

lemma has_own_params_loop:
  "has_own (params_loop segs ret) k \<longleftrightarrow>
     has_own ret k
     \<or> (k \<noteq> ''__proto__''
         \<and> (\<exists>seg \<in> set segs. seg \<noteq> [] \<and> to_string (js_nth (js_split ''='' seg) 0) = k))"
proof (induction segs arbitrary: ret)
  case Nil
  show ?case by simp
next
  case (Cons seg segs)
  show ?case
  proof (cases "seg = []")
    case True
    then show ?thesis using Cons.IH[of ret] by simp
  next
    case False
    define K where "K = to_string (js_nth (js_split ''='' seg) 0)"
    define V where "V = js_nth (js_split ''='' seg) 1"
    have step: "params_loop (seg # segs) ret = params_loop segs (obj_set K V ret)"
      using False by (simp add: Let_def K_def V_def)
    have o: "has_own (obj_set K V ret) k \<longleftrightarrow> (K \<noteq> ''__proto__'' \<and> k = K) \<or> has_own ret k"
      by (rule has_own_obj_set)
    have e: "(\<exists>s \<in> set (seg # segs). s \<noteq> [] \<and> to_string (js_nth (js_split ''='' s) 0) = k)
           \<longleftrightarrow> K = k \<or> (\<exists>s \<in> set segs. s \<noteq> [] \<and> to_string (js_nth (js_split ''='' s) 0) = k)"
      using False by (simp add: K_def)
    show ?thesis unfolding step Cons.IH[of "obj_set K V ret"] o e by blast
  qed
qed

lemma obj_get_params_loop:
  "k \<noteq> ''__proto__'' \<Longrightarrow>
   obj_get (params_loop segs ret) k =
     (case filter (\<lambda>seg. seg \<noteq> [] \<and> to_string (js_nth (js_split ''='' seg) 0) = k) segs of
        [] \<Rightarrow> obj_get ret k
      | f # fs \<Rightarrow> js_nth (js_split ''='' (last (f # fs))) 1)"
proof (induction segs arbitrary: ret)
  case Nil
  then show ?case by simp
next
  case (Cons seg segs)
  show ?case
  proof (cases "seg \<noteq> [] \<and> to_string (js_nth (js_split ''='' seg) 0) = k")
    case True
    then have "obj_get (obj_set (to_string (js_nth (js_split ''='' seg) 0))
                  (js_nth (js_split ''='' seg) 1) ret) k = js_nth (js_split ''='' seg) 1"
      using Cons.prems by (simp add: obj_set_def)
    then show ?thesis
      using True Cons.IH[OF Cons.prems] by (simp add: Let_def split: list.splits)
  next
    case False
    then have "seg \<noteq> [] \<Longrightarrow> obj_get (obj_set (to_string (js_nth (js_split ''='' seg) 0))
                  (js_nth (js_split ''='' seg) 1) ret) k = obj_get ret k"
      by (simp add: obj_set_def)
    then show ?thesis
      using False Cons.IH[OF Cons.prems] by (auto simp: Let_def split: list.splits)
  qed
qed

lemma params_loop_pairs:
  assumes "\<forall>k \<in> set ks. plain k \<and> plain (f k) \<and> k \<noteq> ''__proto__''"
  shows "map_of (params_loop (map (\<lambda>k. k @ ''='' @ f k) ks) ret)
           = (\<lambda>k. if k \<in> set ks then Some (Str (f k)) else map_of ret k)"
  using assms
proof (induction ks arbitrary: ret)
  case Nil
  then show ?case by simp
next
  case (Cons k ks)
  have pl: "CHR ''='' \<notin> set k" "CHR ''='' \<notin> set (f k)" "k \<noteq> ''__proto__''"
    using Cons.prems by (simp_all add: plain_def)
  have "js_split ''='' (js_join ''='' [k, f k]) = [k, f k]"
    by (rule js_split_join) (use pl in auto)
  then have sp: "js_split ''='' (k @ CHR ''='' # f k) = [k, f k]" by simp
  have step: "params_loop (map (\<lambda>k. k @ ''='' @ f k) (k # ks)) ret
               = params_loop (map (\<lambda>k. k @ ''='' @ f k) ks) (obj_set k (Str (f k)) ret)"
    by (simp add: sp js_nth_def Let_def del: js_split.simps)
  have ih: "map_of (params_loop (map (\<lambda>k. k @ ''='' @ f k) ks) (obj_set k (Str (f k)) ret))
           = (\<lambda>k'. if k' \<in> set ks then Some (Str (f k')) else map_of (obj_set k (Str (f k)) ret) k')"
    by (rule Cons.IH) (use Cons.prems in simp)
  show ?case
    unfolding step ih by (rule ext) (simp add: map_of_obj_set[OF pl(3)])
qed

lemma set_for_in_keys: "set (for_in_keys obj) = fst ` set obj"
  by (auto simp: for_in_keys_def Let_def)

lemma for_in_keys_Nil: "for_in_keys obj = [] \<longleftrightarrow> obj = []"
  using set_for_in_keys[of obj] by (metis image_is_empty set_empty)

lemma parse_query_string:
  assumes Q: "\<forall>kv \<in> set obj. plain_entry kv"
    and D: "\<forall>kv \<in> set obj. snd kv \<noteq> Undefined"
  shows "map_of (parse_params (query_string obj)) = map_of obj"
proof (cases "obj = []")
  case True
  then show ?thesis by (simp add: parse_params_def query_string_def)
next
  case False
  define f where "f = (\<lambda>k. to_string (obj_get obj k))"
  define segs where "segs = map (\<lambda>k. k @ ''='' @ f k) (for_in_keys obj)"
  have val: "\<exists>t. map_of obj k = Some (Str t) \<and> plain t \<and> f k = t" if "k \<in> fst ` set obj" for k
  proof -
    from that obtain v where v: "map_of obj k = Some v"
      by (metis map_of_eq_None_iff not_Some_eq)
    then have "(k, v) \<in> set obj" by (rule map_of_SomeD)
    with Q D obtain t where "v = Str t" "plain t"
      by (cases v) (auto simp: plain_entry_def)
    then show ?thesis using v by (simp add: f_def obj_get_def)
  qed
  have keys: "\<forall>k \<in> set (for_in_keys obj). plain k \<and> plain (f k) \<and> k \<noteq> ''__proto__''"
  proof
    fix k assume "k \<in> set (for_in_keys obj)"
    then have m: "k \<in> fst ` set obj" by (simp add: set_for_in_keys)
    then obtain kv where "kv \<in> set obj" "k = fst kv" by blast
    with Q have "plain k" "k \<noteq> ''__proto__''" by (auto simp: plain_entry_def)
    moreover have "plain (f k)" using val[OF m] by auto
    ultimately show "plain k \<and> plain (f k) \<and> k \<noteq> ''__proto__''" by simp
  qed
  have ne: "segs \<noteq> []" using False by (simp add: segs_def for_in_keys_Nil)
  have amp: "\<forall>x \<in> set segs. CHR ''&'' \<notin> set x"
    using keys by (auto simp: segs_def plain_def)
  have "js_split ''&'' (js_join ''&'' segs) = segs" by (rule js_split_join[OF ne amp])
  then have "parse_params (query_string obj) = params_loop segs []"
    using False by (simp add: parse_params_def query_string_def segs_def f_def)
  moreover have "map_of (params_loop segs [])
               = (\<lambda>k. if k \<in> set (for_in_keys obj) then Some (Str (f k)) else None)"
    using params_loop_pairs[OF keys, of "[]"] by (simp add: segs_def cong: if_cong)
  ultimately have "map_of (parse_params (query_string obj))
               = (\<lambda>k. if k \<in> set (for_in_keys obj) then Some (Str (f k)) else None)"
    by simp
  also have "\<dots> = map_of obj"
  proof
    fix k
    show "(if k \<in> set (for_in_keys obj) then Some (Str (f k)) else None) = map_of obj k"
    proof (cases "k \<in> fst ` set obj")
      case True
      with val[OF True] show ?thesis by (auto simp: set_for_in_keys)
    next
      case False
      then have "map_of obj k = None" by (simp add: map_of_eq_None_iff)
      then show ?thesis using False by (simp add: set_for_in_keys)
    qed
  qed
  finally show ?thesis .
qed

lemma parse_params_entries:
  "\<forall>kv \<in> set (parse_params search). plain_entry kv"
  unfolding parse_params_def
proof (rule params_loop_entries)
  show "\<forall>seg \<in> set (js_split ''&'' (strip_question search)). CHR ''&'' \<notin> set seg"
    using js_split_char_free by blast
qed simp

lemma has_own_iff: "has_own obj k \<longleftrightarrow> k \<in> fst ` set obj"
  by (simp add: has_own_def map_of_eq_None_iff)

lemma render_params_eq:
  assumes "\<not> has_own obj ''hasOwnProperty''" "\<forall>p \<in> set props. has_own obj p"
  shows "render_params obj props (u, j)
           = Inr (if props = [] then (u, j)
                  else (u @ j @ js_join ''&''
                                  (map (\<lambda>k. k @ ''='' @ to_string (obj_get obj k)) props),
                        ''&''))"
  using assms(2)
proof (induction props arbitrary: u j)
  case Nil
  show ?case by simp
next
  case (Cons p props)
  have h: "hasOwnProperty obj p = Inr True"
    using assms(1) Cons.prems by (simp add: hasOwnProperty_def)
  have ih: "render_params obj props (u @ j @ p @ ''='' @ to_string (obj_get obj p), ''&'')
           = Inr (if props = [] then (u @ j @ p @ ''='' @ to_string (obj_get obj p), ''&'')
                  else ((u @ j @ p @ ''='' @ to_string (obj_get obj p)) @ ''&'' @ js_join ''&''
                                  (map (\<lambda>k. k @ ''='' @ to_string (obj_get obj k)) props),
                        ''&''))"
    by (rule Cons.IH) (use Cons.prems in simp)
  show ?case
  proof (cases props)
    case Nil
    then show ?thesis using h by simp
  next
    case (Cons q qs)
    then show ?thesis using h ih by simp
  qed
qed

lemma render_params_shadowed:
  "has_own obj ''hasOwnProperty'' \<Longrightarrow> props \<noteq> [] \<Longrightarrow> render_params obj props (u, j) = Inl TypeError"
  by (cases props) (simp_all add: hasOwnProperty_def)

lemma renderURL_shape:
  assumes "renderURL url = Inr rendered"
  shows "rendered = protocol url @ ''://'' @ host url
                     @ (if port url \<noteq> [] then '':'' @ port url else [])
                     @ path url @ query_string (params url)
                     @ (if hash url \<noteq> [] then ''#'' @ hash url else [])"
proof -
  define u where "u = (if port url \<noteq> [] then (protocol url @ ''://'' @ host url) @ '':'' @ port url
                       else protocol url @ ''://'' @ host url) @ path url"
  have r: "renderURL url = (case render_params (params url) (for_in_keys (params url)) (u, ''?'') of
             Inl e \<Rightarrow> Inl e
           | Inr (url3, joiner) \<Rightarrow>
               Inr (if hash url \<noteq> [] then url3 @ ''#'' @ hash url else url3))"
    unfolding renderURL_def Let_def u_def ..
  have ns: "\<not> has_own (params url) ''hasOwnProperty''"
  proof
    assume sh: "has_own (params url) ''hasOwnProperty''"
    then have "params url \<noteq> []" by (auto simp: has_own_def)
    then have "for_in_keys (params url) \<noteq> []" by (simp add: for_in_keys_Nil)
    from render_params_shadowed[OF sh this] show False using assms r by simp
  qed
  have all: "\<forall>p \<in> set (for_in_keys (params url)). has_own (params url) p"
    by (simp add: set_for_in_keys has_own_iff)
  show ?thesis
    using assms unfolding r render_params_eq[OF ns all]
    by (auto simp: u_def query_string_def for_in_keys_Nil)
qed

subsection \<open>The anchor of an absolute URL\<close>

text \<open>
  \<open>simple_anchor\<close> splits every string into six parts from which the string of the shape
  \<^verbatim>\<open>protocol://host[:port]/path[?query][#fragment]\<close> is put together again, and it
  returns the parts of every string that is put together this way. So it resolves what
  \<^verbatim>\<open>renderURL\<close> writes for a parsed URL to the parts of that URL, with the rendered
  query in the place of the old one.
\<close>

lemma takeWhile_stop:
  "\<forall>c \<in> set xs. P c \<Longrightarrow> ys = [] \<or> \<not> P (hd ys) \<Longrightarrow> takeWhile P (xs @ ys) = xs"
  by (cases ys) (simp_all add: takeWhile_append2)

lemma drop_behind: "drop (Suc (length xs)) (xs @ y # ys) = ys"
  by simp

lemma drop_behind_end: "drop (Suc (length xs)) xs = []"
  by simp

lemma drop_front: "drop (length xs) (xs @ ys) = ys"
  by simp

lemma simple_anchor_canonical:
  assumes S: "\<forall>c \<in> set sch. c \<noteq> CHR '':'' \<and> c \<noteq> CHR ''?'' \<and> c \<noteq> CHR ''#''"
    and H: "\<forall>c \<in> set h. c \<noteq> CHR '':'' \<and> c \<noteq> CHR ''/'' \<and> c \<noteq> CHR ''?'' \<and> c \<noteq> CHR ''#''"
    and P: "\<forall>c \<in> set p. c \<noteq> CHR ''/'' \<and> c \<noteq> CHR ''?'' \<and> c \<noteq> CHR ''#''"
    and PA: "\<forall>c \<in> set path'. c \<noteq> CHR ''?'' \<and> c \<noteq> CHR ''#''"
    and Q: "q = [] \<or> (\<exists>q'. q = CHR ''?'' # q' \<and> q' \<noteq> [] \<and> CHR ''#'' \<notin> set q')"
  shows "simple_anchor (sch @ ''://'' @ h @ (if p \<noteq> [] then '':'' @ p else [])
                          @ (CHR ''/'' # path') @ q @ (if f \<noteq> [] then ''#'' @ f else []))
           = \<lparr>a_protocol = sch @ '':'', a_hostname = h, a_port = p, a_search = q,
              a_pathname = CHR ''/'' # path', a_hash = (if f \<noteq> [] then ''#'' @ f else [])\<rparr>"
proof -
  define PP where "PP = (if p \<noteq> [] then '':'' @ p else [])"
  define A where "A = h @ PP"
  define R where "R = A @ (CHR ''/'' # path')"
  define B where "B = sch @ ''://'' @ R"
  define F where "F = (if f \<noteq> [] then ''#'' @ f else [])"
  define u where "u = (B @ q) @ F"
  have u: "sch @ ''://'' @ h @ (if p \<noteq> [] then '':'' @ p else [])
                          @ (CHR ''/'' # path') @ q @ (if f \<noteq> [] then ''#'' @ f else []) = u"
    by (simp add: u_def B_def R_def A_def PP_def F_def)
  have nPP: "\<forall>c \<in> set PP. c \<noteq> CHR ''/'' \<and> c \<noteq> CHR ''?'' \<and> c \<noteq> CHR ''#''"
    using P by (auto simp: PP_def)
  have nA: "\<forall>c \<in> set A. c \<noteq> CHR ''/'' \<and> c \<noteq> CHR ''?'' \<and> c \<noteq> CHR ''#''"
    using H nPP by (auto simp: A_def)
  have nR: "\<forall>c \<in> set R. c \<noteq> CHR ''?'' \<and> c \<noteq> CHR ''#''"
    using nA PA by (auto simp: R_def)
  have nB: "\<forall>c \<in> set B. c \<noteq> CHR ''?'' \<and> c \<noteq> CHR ''#''"
    using S nR by (auto simp: B_def)
  have nq: "\<forall>c \<in> set q. c \<noteq> CHR ''#''" using Q by auto
  have s1: "takeWhile (\<lambda>c. c \<noteq> CHR ''#'') u = B @ q"
    unfolding u_def
  proof (rule takeWhile_stop)
    show "\<forall>c \<in> set (B @ q). c \<noteq> CHR ''#''" using nB nq by auto
    show "F = [] \<or> \<not> hd F \<noteq> CHR ''#''" by (simp add: F_def)
  qed
  have s2: "drop (Suc (length (B @ q))) u = f"
  proof (cases "f = []")
    case True
    then have "u = B @ q" by (simp add: u_def F_def)
    then show ?thesis using True drop_behind_end[of "B @ q"] by simp
  next
    case False
    then have "u = (B @ q) @ CHR ''#'' # f" by (simp add: u_def F_def)
    then show ?thesis using drop_behind[of "B @ q" "CHR ''#''" f] by simp
  qed
  have s3: "takeWhile (\<lambda>c. c \<noteq> CHR ''?'') (B @ q) = B"
  proof (rule takeWhile_stop)
    show "\<forall>c \<in> set B. c \<noteq> CHR ''?''" using nB by blast
    show "q = [] \<or> \<not> hd q \<noteq> CHR ''?''" using Q by auto
  qed
  have s4: "(if drop (Suc (length B)) (B @ q) = [] then []
             else ''?'' @ drop (Suc (length B)) (B @ q)) = q"
  proof (cases "q = []")
    case True
    then show ?thesis using drop_behind_end[of B] by simp
  next
    case False
    then obtain q' where q': "q = CHR ''?'' # q'" "q' \<noteq> []" using Q by blast
    have "drop (Suc (length B)) (B @ q) = q'" unfolding q'(1) by (rule drop_behind)
    then show ?thesis using q' by simp
  qed
  have s5: "takeWhile (\<lambda>c. c \<noteq> CHR '':'') B = sch"
  proof -
    have "takeWhile (\<lambda>c. c \<noteq> CHR '':'') (sch @ (''://'' @ R)) = sch"
    proof (rule takeWhile_stop)
      show "\<forall>c \<in> set sch. c \<noteq> CHR '':''" using S by blast
      show "''://'' @ R = [] \<or> \<not> hd (''://'' @ R) \<noteq> CHR '':''" by simp
    qed
    then show ?thesis by (simp add: B_def)
  qed
  have s6: "drop (length sch + 3) B = R"
  proof -
    have "B = (sch @ ''://'') @ R" by (simp add: B_def)
    moreover have "length (sch @ ''://'') = length sch + 3" by simp
    ultimately show ?thesis using drop_front[of "sch @ ''://''" R] by simp
  qed
  have s7: "takeWhile (\<lambda>c. c \<noteq> CHR ''/'') R = A"
    unfolding R_def
  proof (rule takeWhile_stop)
    show "\<forall>c \<in> set A. c \<noteq> CHR ''/''" using nA by blast
    show "CHR ''/'' # path' = [] \<or> \<not> hd (CHR ''/'' # path') \<noteq> CHR ''/''" by simp
  qed
  have s8: "drop (length A) R = CHR ''/'' # path'"
    unfolding R_def by (rule drop_front)
  have s9: "takeWhile (\<lambda>c. c \<noteq> CHR '':'') A = h"
    unfolding A_def
  proof (rule takeWhile_stop)
    show "\<forall>c \<in> set h. c \<noteq> CHR '':''" using H by blast
    show "PP = [] \<or> \<not> hd PP \<noteq> CHR '':''" by (simp add: PP_def)
  qed
  have s10: "drop (Suc (length h)) A = p"
  proof (cases "p = []")
    case True
    then have "A = h" by (simp add: A_def PP_def)
    then show ?thesis using True drop_behind_end[of h] by simp
  next
    case False
    then have "A = h @ CHR '':'' # p" by (simp add: A_def PP_def)
    then show ?thesis using drop_behind[of h "CHR '':''" p] by simp
  qed
  show ?thesis
    unfolding u simple_anchor_def Let_def s1 s2 s3 s5 s6 s7 s8 s9 s10 s4
    by (simp add: F_def)
qed

lemma simple_anchor_parts:
  obtains sch h p path' q f where
    "simple_anchor url
       = \<lparr>a_protocol = sch @ '':'', a_hostname = h, a_port = p, a_search = q,
          a_pathname = CHR ''/'' # path', a_hash = (if f \<noteq> [] then ''#'' @ f else [])\<rparr>"
    and "\<forall>c \<in> set sch. c \<noteq> CHR '':'' \<and> c \<noteq> CHR ''?'' \<and> c \<noteq> CHR ''#''"
    and "\<forall>c \<in> set h. c \<noteq> CHR '':'' \<and> c \<noteq> CHR ''/'' \<and> c \<noteq> CHR ''?'' \<and> c \<noteq> CHR ''#''"
    and "\<forall>c \<in> set p. c \<noteq> CHR ''/'' \<and> c \<noteq> CHR ''?'' \<and> c \<noteq> CHR ''#''"
    and "\<forall>c \<in> set path'. c \<noteq> CHR ''?'' \<and> c \<noteq> CHR ''#''"
    and "CHR ''#'' \<notin> set q"
proof -
  define bh where "bh = takeWhile (\<lambda>c. c \<noteq> CHR ''#'') url"
  define f where "f = drop (Suc (length bh)) url"
  define bq where "bq = takeWhile (\<lambda>c. c \<noteq> CHR ''?'') bh"
  define qu where "qu = drop (Suc (length bq)) bh"
  define sch where "sch = takeWhile (\<lambda>c. c \<noteq> CHR '':'') bq"
  define rest where "rest = drop (length sch + 3) bq"
  define auth where "auth = takeWhile (\<lambda>c. c \<noteq> CHR ''/'') rest"
  define pn where "pn = drop (length auth) rest"
  define h where "h = takeWhile (\<lambda>c. c \<noteq> CHR '':'') auth"
  define p where "p = drop (Suc (length h)) auth"
  define q where "q = (if qu = [] then [] else ''?'' @ qu)"
  define path' where "path' = (if pn = [] then [] else tl pn)"
  have e: "simple_anchor url
       = \<lparr>a_protocol = sch @ '':'', a_hostname = h, a_port = p, a_search = q,
          a_pathname = (if pn = [] then ''/'' else pn),
          a_hash = (if f = [] then [] else ''#'' @ f)\<rparr>"
    unfolding simple_anchor_def Let_def bh_def[symmetric] f_def[symmetric] bq_def[symmetric]
      qu_def[symmetric] sch_def[symmetric] rest_def[symmetric] auth_def[symmetric]
      pn_def[symmetric] h_def[symmetric] p_def[symmetric] q_def[symmetric] ..
  have cbh: "c \<noteq> CHR ''#''" if "c \<in> set bh" for c
    using that unfolding bh_def by (auto dest: set_takeWhileD)
  have cbq: "c \<noteq> CHR ''?'' \<and> c \<noteq> CHR ''#''" if "c \<in> set bq" for c
    using that cbh unfolding bq_def by (auto dest: set_takeWhileD)
  have cqu: "c \<noteq> CHR ''#''" if "c \<in> set qu" for c
    using that cbh unfolding qu_def by (auto dest: in_set_dropD)
  have csch: "c \<noteq> CHR '':'' \<and> c \<noteq> CHR ''?'' \<and> c \<noteq> CHR ''#''" if "c \<in> set sch" for c
    using that cbq unfolding sch_def by (auto dest: set_takeWhileD)
  have crest: "c \<noteq> CHR ''?'' \<and> c \<noteq> CHR ''#''" if "c \<in> set rest" for c
    using that cbq unfolding rest_def by (auto dest: in_set_dropD)
  have cauth: "c \<noteq> CHR ''/'' \<and> c \<noteq> CHR ''?'' \<and> c \<noteq> CHR ''#''" if "c \<in> set auth" for c
    using that crest unfolding auth_def by (auto dest: set_takeWhileD)
  have cpn: "c \<noteq> CHR ''?'' \<and> c \<noteq> CHR ''#''" if "c \<in> set pn" for c
    using that crest unfolding pn_def by (auto dest: in_set_dropD)
  have ch: "c \<noteq> CHR '':'' \<and> c \<noteq> CHR ''/'' \<and> c \<noteq> CHR ''?'' \<and> c \<noteq> CHR ''#''"
    if "c \<in> set h" for c
    using that cauth unfolding h_def by (auto dest: set_takeWhileD)
  have cp: "c \<noteq> CHR ''/'' \<and> c \<noteq> CHR ''?'' \<and> c \<noteq> CHR ''#''" if "c \<in> set p" for c
    using that cauth unfolding p_def by (auto dest: in_set_dropD)
  have pnd: "pn = dropWhile (\<lambda>c. c \<noteq> CHR ''/'') rest"
    unfolding pn_def auth_def by (simp add: dropWhile_eq_drop)
  have pa: "(if pn = [] then ''/'' else pn) = CHR ''/'' # path'"
  proof (cases "pn = []")
    case True
    then show ?thesis by (simp add: path'_def)
  next
    case False
    then have "\<not> hd pn \<noteq> CHR ''/''" unfolding pnd by (rule hd_dropWhile)
    then show ?thesis using False by (cases pn) (simp_all add: path'_def)
  qed
  have cpath: "c \<noteq> CHR ''?'' \<and> c \<noteq> CHR ''#''" if "c \<in> set path'" for c
  proof -
    from that have "pn \<noteq> []" "c \<in> set (tl pn)" by (auto simp: path'_def split: if_splits)
    then have "c \<in> set pn" by (cases pn) auto
    then show ?thesis by (rule cpn)
  qed
  have cq: "CHR ''#'' \<notin> set q" using cqu by (auto simp: q_def)
  have hf: "(if f = [] then [] else ''#'' @ f) = (if f \<noteq> [] then ''#'' @ f else [])" by simp
  show ?thesis
  proof (rule that[of sch h p q path' f])
    show "simple_anchor url
       = \<lparr>a_protocol = sch @ '':'', a_hostname = h, a_port = p, a_search = q,
          a_pathname = CHR ''/'' # path', a_hash = (if f \<noteq> [] then ''#'' @ f else [])\<rparr>"
      unfolding e pa hf ..
    show "\<forall>c \<in> set sch. c \<noteq> CHR '':'' \<and> c \<noteq> CHR ''?'' \<and> c \<noteq> CHR ''#''"
      using csch by blast
    show "\<forall>c \<in> set h. c \<noteq> CHR '':'' \<and> c \<noteq> CHR ''/'' \<and> c \<noteq> CHR ''?'' \<and> c \<noteq> CHR ''#''"
      using ch by blast
    show "\<forall>c \<in> set p. c \<noteq> CHR ''/'' \<and> c \<noteq> CHR ''?'' \<and> c \<noteq> CHR ''#''"
      using cp by blast
    show "\<forall>c \<in> set path'. c \<noteq> CHR ''?'' \<and> c \<noteq> CHR ''#''"
      using cpath by blast
    show "CHR ''#'' \<notin> set q" by (rule cq)
  qed
qed

lemma set_js_join: "set (js_join sep xs) \<subseteq> set sep \<union> (\<Union>x \<in> set xs. set x)"
  by (induction sep xs rule: js_join.induct) auto

lemma js_join_nonempty: "hd xs \<noteq> [] \<Longrightarrow> xs \<noteq> [] \<Longrightarrow> js_join sep xs \<noteq> []"
  by (induction sep xs rule: js_join.induct) auto

lemma params_loop_free_of:
  assumes "\<forall>seg \<in> set segs. c \<notin> set seg" and "\<forall>kv \<in> set ret. free_of c kv"
    and "c \<notin> set ''undefined''"
  shows "\<forall>kv \<in> set (params_loop segs ret). free_of c kv"
  using assms(1,2)
proof (induction segs arbitrary: ret)
  case Nil
  then show ?case by simp
next
  case (Cons seg segs)
  have rest: "\<forall>seg \<in> set segs. c \<notin> set seg" using Cons.prems(1) by simp
  show ?case
  proof (cases "seg = []")
    case True
    then have step: "params_loop (seg # segs) ret = params_loop segs ret" by simp
    show ?thesis unfolding step by (rule Cons.IH[OF rest Cons.prems(2)])
  next
    case False
    define k where "k = to_string (js_nth (js_split ''='' seg) 0)"
    define v where "v = js_nth (js_split ''='' seg) 1"
    have step: "params_loop (seg # segs) ret = params_loop segs (obj_set k v ret)"
      using False by (simp add: Let_def k_def v_def)
    have cs: "c \<notin> set seg" using Cons.prems(1) by simp
    have piece: "c \<notin> set x" if "x \<in> set (js_split ''='' seg)" for x
      using js_split_subset[OF that] cs by auto
    have ne: "js_split ''='' seg \<noteq> []" by (rule js_split_nonempty) simp
    then have "js_split ''='' seg ! 0 \<in> set (js_split ''='' seg)"
      by (cases "js_split ''='' seg") auto
    then have ck: "c \<notin> set k" using piece ne by (simp add: k_def js_nth_def)
    have cv: "c \<notin> set (to_string v)"
    proof (cases "1 < length (js_split ''='' seg)")
      case True
      then have "js_split ''='' seg ! 1 \<in> set (js_split ''='' seg)" by (rule nth_mem)
      then show ?thesis using piece True by (simp add: v_def js_nth_def)
    next
      case False
      then show ?thesis using assms(3) by (simp add: v_def js_nth_def)
    qed
    have new: "free_of c (k, v)" using ck cv by (simp add: free_of_def)
    have "\<forall>kv \<in> set (obj_set k v ret). free_of c kv"
    proof
      fix kv assume "kv \<in> set (obj_set k v ret)"
      then consider "kv \<in> set ret" | "kv = (k, v)"
        using obj_set_entries by blast
      then show "free_of c kv"
      proof cases
        case 1
        then show ?thesis using Cons.prems(2) by blast
      next
        case 2
        then show ?thesis using new by simp
      qed
    qed
    then show ?thesis unfolding step by (rule Cons.IH[OF rest])
  qed
qed

lemma query_string_free_of:
  assumes "\<forall>kv \<in> set obj. free_of c kv" and "c \<notin> set ''?&=''"
  shows "c \<notin> set (query_string obj)"
proof (cases "obj = []")
  case True
  then show ?thesis by (simp add: query_string_def)
next
  case False
  have el: "c \<notin> set (k @ ''='' @ to_string (obj_get obj k))" if "k \<in> set (for_in_keys obj)" for k
  proof -
    from that have "k \<in> fst ` set obj" by (simp add: set_for_in_keys)
    then obtain v where v: "map_of obj k = Some v"
      by (metis map_of_eq_None_iff not_Some_eq)
    then have "(k, v) \<in> set obj" by (rule map_of_SomeD)
    then have "free_of c (k, v)" using assms(1) by blast
    then show ?thesis using v assms(2) by (simp add: free_of_def obj_get_def)
  qed
  have "c \<notin> set (js_join ''&'' (map (\<lambda>k. k @ ''='' @ to_string (obj_get obj k)) (for_in_keys obj)))"
  proof
    assume "c \<in> set (js_join ''&'' (map (\<lambda>k. k @ ''='' @ to_string (obj_get obj k)) (for_in_keys obj)))"
    then have "c \<in> set ''&'' \<union> (\<Union>x \<in> set (map (\<lambda>k. k @ ''='' @ to_string (obj_get obj k))
                                            (for_in_keys obj)). set x)"
      using set_js_join by blast
    then obtain k where "k \<in> set (for_in_keys obj)"
        "c \<in> set (k @ ''='' @ to_string (obj_get obj k))"
      using assms(2) by (auto split: if_splits)
    then show False using el by blast
  qed
  then show ?thesis using False assms(2) by (simp add: query_string_def)
qed

lemma query_string_shape:
  "query_string obj = []
   \<or> (\<exists>q'. query_string obj = CHR ''?'' # q' \<and> q' \<noteq> [])"
proof (cases "obj = []")
  case True
  then show ?thesis by (simp add: query_string_def)
next
  case False
  then have ne: "for_in_keys obj \<noteq> []" by (simp add: for_in_keys_Nil)
  have "js_join ''&'' (map (\<lambda>k. k @ ''='' @ to_string (obj_get obj k)) (for_in_keys obj)) \<noteq> []"
    by (rule js_join_nonempty) (use ne in \<open>simp_all add: hd_map\<close>)
  then show ?thesis using False by (simp add: query_string_def)
qed

lemma set_strip_question: "set (strip_question s) \<subseteq> set s"
  by (cases s) auto

lemma parse_params_free_of:
  assumes "c \<notin> set search" and "c \<notin> set ''undefined''"
  shows "\<forall>kv \<in> set (parse_params search). free_of c kv"
  unfolding parse_params_def
proof (rule params_loop_free_of)
  show "\<forall>seg \<in> set (js_split ''&'' (strip_question search)). c \<notin> set seg"
    using js_split_subset set_strip_question assms(1) by blast
  show "\<forall>kv \<in> set []. free_of c kv" by simp
  show "c \<notin> set ''undefined''" by (rule assms(2))
qed

lemma simple_anchor_rendered:
  assumes "renderURL (parseURL simple_anchor url) = Inr rendered"
  shows "simple_anchor rendered
           = (simple_anchor url)\<lparr>a_search := query_string (params (parseURL simple_anchor url))\<rparr>"
proof -
  obtain sch h p path' q f where
    a: "simple_anchor url
       = \<lparr>a_protocol = sch @ '':'', a_hostname = h, a_port = p, a_search = q,
          a_pathname = CHR ''/'' # path', a_hash = (if f \<noteq> [] then ''#'' @ f else [])\<rparr>"
    and S: "\<forall>c \<in> set sch. c \<noteq> CHR '':'' \<and> c \<noteq> CHR ''?'' \<and> c \<noteq> CHR ''#''"
    and H: "\<forall>c \<in> set h. c \<noteq> CHR '':'' \<and> c \<noteq> CHR ''/'' \<and> c \<noteq> CHR ''?'' \<and> c \<noteq> CHR ''#''"
    and P: "\<forall>c \<in> set p. c \<noteq> CHR ''/'' \<and> c \<noteq> CHR ''?'' \<and> c \<noteq> CHR ''#''"
    and PA: "\<forall>c \<in> set path'. c \<noteq> CHR ''?'' \<and> c \<noteq> CHR ''#''"
    and Q: "CHR ''#'' \<notin> set q"
    by (rule simple_anchor_parts[of url])
  define st where "st = parseURL simple_anchor url"
  have "CHR '':'' \<notin> set sch" using S by blast
  then have pr: "protocol st = sch"
    by (simp add: st_def parseURL_def a remove1_append)
  have ho: "host st = h" and po: "port st = p" and pa: "path st = CHR ''/'' # path'"
    and ps: "params st = parse_params q"
    by (simp_all add: st_def parseURL_def a)
  have ha: "hash st = f" by (simp add: st_def parseURL_def a)
  have hf: "(if hash st \<noteq> [] then ''#'' @ hash st else []) = (if f \<noteq> [] then ''#'' @ f else [])"
    by (simp add: ha)
  have shape: "rendered = sch @ ''://'' @ h @ (if p \<noteq> [] then '':'' @ p else [])
                  @ (CHR ''/'' # path') @ query_string (params st)
                  @ (if f \<noteq> [] then ''#'' @ f else [])"
    using renderURL_shape[OF assms] unfolding st_def[symmetric] pr ho po pa hf .
  have fr: "\<forall>kv \<in> set (params st). free_of (CHR ''#'') kv"
    unfolding ps by (rule parse_params_free_of) (use Q in simp_all)
  have nq: "CHR ''#'' \<notin> set (query_string (params st))"
    by (rule query_string_free_of[OF fr]) simp
  have Q': "query_string (params st) = []
          \<or> (\<exists>q'. query_string (params st) = CHR ''?'' # q' \<and> q' \<noteq> [] \<and> CHR ''#'' \<notin> set q')"
    using query_string_shape[of "params st"] nq by auto
  have "simple_anchor rendered
          = \<lparr>a_protocol = sch @ '':'', a_hostname = h, a_port = p,
             a_search = query_string (params st),
             a_pathname = CHR ''/'' # path', a_hash = (if f \<noteq> [] then ''#'' @ f else [])\<rparr>"
    unfolding shape by (rule simple_anchor_canonical[OF S H P PA Q'])
  then show ?thesis unfolding st_def[symmetric] a by simp
qed

subsection \<open>The claims about the query executor\<close>

lemma doSearch_same_term:
  "current_searchterm s = searchterm \<Longrightarrow> doSearch E searchterm s = s"
  by (simp add: doSearch_def)

text \<open>
  Claim C9. A second call of \<^verbatim>\<open>doSearch\<close> with the same term returns at the comparison
  with \<^verbatim>\<open>current_searchterm\<close> and leaves the session as the first call left it. When
  the index is loaded and the term is not the current one before the first call, the two
  calls together run \<^verbatim>\<open>searchindex.search\<close> once: the record of the lookups grows by
  exactly this term.
\<close>

theorem doSearch_twice_looks_up_once:
  "doSearch E searchterm (doSearch E searchterm s) = doSearch E searchterm s
   \<and> (searchindex s \<noteq> None \<and> current_searchterm s \<noteq> searchterm \<longrightarrow>
        lookups (doSearch E searchterm (doSearch E searchterm s)) = lookups s @ [searchterm])"
proof -
  have c: "current_searchterm (doSearch E searchterm s) = searchterm"
    by (auto simp: doSearch_def Let_def split: option.splits)
  have i: "doSearch E searchterm (doSearch E searchterm s) = doSearch E searchterm s"
    using c by (rule doSearch_same_term)
  have "lookups (doSearch E searchterm s) = lookups s @ [searchterm]"
    if "searchindex s \<noteq> None" "current_searchterm s \<noteq> searchterm"
    using that by (auto simp: doSearch_def Let_def split: option.splits)
  then show ?thesis using i by simp
qed

theorem doSearch_twice_looks_up_once_witness:
  "searchindex (index_loaded \<lparr>teaser_word_count = 30, limit_results = 30\<rparr> (\<lambda>t opts. [])
                  (initial_session ''http://h/p'')) \<noteq> None
   \<and> current_searchterm (index_loaded \<lparr>teaser_word_count = 30, limit_results = 30\<rparr>
                          (\<lambda>t opts. []) (initial_session ''http://h/p'')) \<noteq> ''fox''
   \<and> lookups (doSearch example_environment ''fox''
                (doSearch example_environment ''fox''
                   (index_loaded \<lparr>teaser_word_count = 30, limit_results = 30\<rparr>
                      (\<lambda>t opts. []) (initial_session ''http://h/p'')))) = [''fox'']"
proof -
  define s0 where "s0 = index_loaded \<lparr>teaser_word_count = 30, limit_results = 30\<rparr>
                          (\<lambda>t opts. []) (initial_session ''http://h/p'')"
  have a: "searchindex s0 \<noteq> None" and b: "current_searchterm s0 \<noteq> ''fox''"
    and c: "lookups s0 = []"
    by (simp_all add: s0_def index_loaded_def initial_session_def)
  from doSearch_twice_looks_up_once[of example_environment "''fox''" s0] a b
  have "lookups (doSearch example_environment ''fox'' (doSearch example_environment ''fox'' s0))
          = lookups s0 @ [''fox'']"
    by blast
  with a b c show ?thesis unfolding s0_def by simp
qed

text \<open>
  Claim C10. \<^verbatim>\<open>doSearch\<close> stores the term before it tests the index. Called while
  \<^verbatim>\<open>searchindex\<close> is null it records the term, looks nothing up and leaves the results;
  the same call after the index has been loaded returns at once, so the pair of calls
  runs no lookup and produces no result.
\<close>

theorem doSearch_before_index_loaded:
  assumes "searchindex s = None"
  shows "current_searchterm (doSearch E searchterm s) = searchterm
       \<and> lookups (doSearch E searchterm s) = lookups s
       \<and> searchresults (doSearch E searchterm s) = searchresults s
       \<and> doSearch E searchterm (index_loaded opts search (doSearch E searchterm s))
           = index_loaded opts search (doSearch E searchterm s)
       \<and> lookups (doSearch E searchterm (index_loaded opts search (doSearch E searchterm s)))
           = lookups s
       \<and> searchresults (doSearch E searchterm (index_loaded opts search (doSearch E searchterm s)))
           = searchresults s"
proof -
  have a: "current_searchterm (doSearch E searchterm s) = searchterm"
    "lookups (doSearch E searchterm s) = lookups s"
    "searchresults (doSearch E searchterm s) = searchresults s"
    using assms by (auto simp: doSearch_def Let_def)
  have b: "doSearch E searchterm (index_loaded opts search (doSearch E searchterm s))
           = index_loaded opts search (doSearch E searchterm s)"
    by (rule doSearch_same_term) (simp add: index_loaded_def a(1))
  show ?thesis using a unfolding b by (simp add: index_loaded_def)
qed

theorem doSearch_before_index_loaded_witness:
  "searchindex (initial_session ''http://h/p'') = None
   \<and> current_searchterm (doSearch example_environment ''fox'' (initial_session ''http://h/p''))
       = ''fox''
   \<and> lookups (doSearch example_environment ''fox''
                (index_loaded \<lparr>teaser_word_count = 30, limit_results = 30\<rparr> (\<lambda>t opts. [])
                   (doSearch example_environment ''fox'' (initial_session ''http://h/p''))))
       = []
   \<and> searchresults (doSearch example_environment ''fox''
                (index_loaded \<lparr>teaser_word_count = 30, limit_results = 30\<rparr> (\<lambda>t opts. [])
                   (doSearch example_environment ''fox'' (initial_session ''http://h/p''))))
       = []"
proof -
  have n: "searchindex (initial_session ''http://h/p'') = None"
    and l: "lookups (initial_session ''http://h/p'') = []"
    and r: "searchresults (initial_session ''http://h/p'') = []"
    by (simp_all add: initial_session_def)
  from doSearch_before_index_loaded[OF n, of example_environment "''fox''"
        "\<lparr>teaser_word_count = 30, limit_results = 30\<rparr>" "\<lambda>t opts. []"]
  show ?thesis unfolding l r using n by blast
qed

subsection \<open>The claims about the URL of the search\<close>

lemma setSearchUrlParameters_shadowed:
  "has_own (params (parseURL (env_anchor E) (location_href s))) ''hasOwnProperty'' \<Longrightarrow>
   setSearchUrlParameters E searchterm action s = Inl (TypeError, s)"
  by (simp add: setSearchUrlParameters_def Let_def hasOwnProperty_def)

text \<open>
  Claim C3. On a URL without a parameter named \<^verbatim>\<open>hasOwnProperty\<close> (with one, line 943
  throws before anything is committed), \<^verbatim>\<open>setSearchUrlParameters\<close> commits the rendered
  URL with \<^verbatim>\<open>pushState\<close> exactly when the action is push, or the action is
  push-if-new-search-else-replace and the URL has no \<^verbatim>\<open>search\<close> parameter; in the other
  cases it commits with \<^verbatim>\<open>replaceState\<close>.
\<close>

theorem setSearchUrlParameters_push_or_replace:
  assumes "\<not> has_own (params (parseURL (env_anchor E) (location_href s))) ''hasOwnProperty''"
  shows "\<exists>rendered.
           renderURL (update_params searchterm action
                        (parseURL (env_anchor E) (location_href s))) = Inr rendered
         \<and> setSearchUrlParameters E searchterm action s
             = Inr (if action = Push
                       \<or> (action = PushIfNewSearchElseReplace
                           \<and> \<not> has_own (params (parseURL (env_anchor E) (location_href s)))
                                  URL_SEARCH_PARAM)
                    then pushState E rendered s else replaceState E rendered s)"
proof -
  let ?url = "parseURL (env_anchor E) (location_href s)"
  from renderURL_returns[OF update_params_no_shadow[OF assms]]
  obtain rendered where r: "renderURL (update_params searchterm action ?url) = Inr rendered"
    by blast
  have h: "hasOwnProperty (params ?url) URL_SEARCH_PARAM
             = Inr (has_own (params ?url) URL_SEARCH_PARAM)"
    using assms by (simp add: hasOwnProperty_def)
  show ?thesis
    using r by (intro exI[of _ rendered]) (cases action; simp add: setSearchUrlParameters_def Let_def h)
qed

theorem setSearchUrlParameters_push_or_replace_witness:
  "\<not> has_own (params (parseURL (env_anchor example_environment)
                       (location_href (initial_session ''http://h/p'')))) ''hasOwnProperty''
   \<and> setSearchUrlParameters example_environment ''foo'' PushIfNewSearchElseReplace
        (initial_session ''http://h/p'')
       = Inr (pushState example_environment ''http://h/p?search=foo'' (initial_session ''http://h/p''))
   \<and> \<not> has_own (params (parseURL (env_anchor example_environment)
                       (location_href (pushState example_environment ''http://h/p?search=foo''
                                         (initial_session ''http://h/p''))))) ''hasOwnProperty''
   \<and> setSearchUrlParameters example_environment ''foobar'' PushIfNewSearchElseReplace
        (pushState example_environment ''http://h/p?search=foo'' (initial_session ''http://h/p''))
       = Inr (replaceState example_environment ''http://h/p?search=foobar''
                (pushState example_environment ''http://h/p?search=foo'' (initial_session ''http://h/p'')))"
proof -
  have l1: "location_href (initial_session ''http://h/p'') = ''http://h/p''"
    by (simp add: initial_session_def)
  have l2: "location_href (pushState example_environment ''http://h/p?search=foo''
                             (initial_session ''http://h/p''))
              = ''http://h/p?search=foo''"
    by (simp add: pushState_def example_environment_def)
  have a: "env_anchor example_environment = simple_anchor"
    by (simp add: example_environment_def)
  have h1: "\<not> has_own (params (parseURL simple_anchor ''http://h/p'')) ''hasOwnProperty''"
    by code_simp
  have s1: "\<not> has_own (params (parseURL simple_anchor ''http://h/p'')) URL_SEARCH_PARAM"
    by code_simp
  have r1: "renderURL (update_params ''foo'' PushIfNewSearchElseReplace
                         (parseURL simple_anchor ''http://h/p''))
              = Inr ''http://h/p?search=foo''"
    by code_simp
  have h2: "\<not> has_own (params (parseURL simple_anchor ''http://h/p?search=foo'')) ''hasOwnProperty''"
    by code_simp
  have s2: "has_own (params (parseURL simple_anchor ''http://h/p?search=foo'')) URL_SEARCH_PARAM"
    by code_simp
  have r2: "renderURL (update_params ''foobar'' PushIfNewSearchElseReplace
                         (parseURL simple_anchor ''http://h/p?search=foo''))
              = Inr ''http://h/p?search=foobar''"
    by code_simp
  show ?thesis
    using setSearchUrlParameters_push_or_replace[of example_environment
        "initial_session ''http://h/p''" "''foo''" PushIfNewSearchElseReplace]
      setSearchUrlParameters_push_or_replace[of example_environment
        "pushState example_environment ''http://h/p?search=foo'' (initial_session ''http://h/p'')" "''foobar''"
        PushIfNewSearchElseReplace]
    by (simp add: l1 l2 a h1 s1 r1 h2 s2 r2)
qed

text \<open>
  What \<^verbatim>\<open>setSearchUrlParameters\<close> renders: on a URL without a parameter named
  \<^verbatim>\<open>hasOwnProperty\<close> every call commits the rendering of the updated URL object. When
  the term is not empty or the action is push-if-new-search-else-replace, that object has
  the \<^verbatim>\<open>search\<close> parameter set to the term, no \<^verbatim>\<open>highlight\<close> parameter and an empty
  fragment; otherwise it has no \<^verbatim>\<open>search\<close> parameter. The rendering is
  \<^verbatim>\<open>protocol://host[:port]path\<close>, the query of these parameters with the term as it
  is, and, only when the fragment is not empty, \<^verbatim>\<open>#\<close> and the fragment.
\<close>

lemma setSearchUrlParameters_rendered_state:
  assumes "\<not> has_own (params (parseURL (env_anchor E) (location_href s))) ''hasOwnProperty''"
  shows "\<exists>s' rendered.
           setSearchUrlParameters E searchterm action s = Inr s'
         \<and> renderURL (update_params searchterm action
                        (parseURL (env_anchor E) (location_href s))) = Inr rendered
         \<and> location_href s' = env_href E rendered
         \<and> rendered
             = protocol (update_params searchterm action
                          (parseURL (env_anchor E) (location_href s))) @ ''://''
               @ host (update_params searchterm action
                         (parseURL (env_anchor E) (location_href s)))
               @ (if port (update_params searchterm action
                             (parseURL (env_anchor E) (location_href s))) \<noteq> []
                  then '':'' @ port (update_params searchterm action
                                       (parseURL (env_anchor E) (location_href s)))
                  else [])
               @ path (update_params searchterm action
                         (parseURL (env_anchor E) (location_href s)))
               @ query_string (params (update_params searchterm action
                                         (parseURL (env_anchor E) (location_href s))))
               @ (if hash (update_params searchterm action
                             (parseURL (env_anchor E) (location_href s))) \<noteq> []
                  then ''#'' @ hash (update_params searchterm action
                                       (parseURL (env_anchor E) (location_href s)))
                  else [])
         \<and> (history_log s' = history_log s @ [PushState rendered]
              \<or> history_log s' = history_log s @ [ReplaceState rendered])
         \<and> (if searchterm \<noteq> [] \<or> action = PushIfNewSearchElseReplace
            then obj_get (params (update_params searchterm action
                                    (parseURL (env_anchor E) (location_href s))))
                   URL_SEARCH_PARAM = Str searchterm
               \<and> has_own (params (update_params searchterm action
                                    (parseURL (env_anchor E) (location_href s))))
                   URL_SEARCH_PARAM
               \<and> \<not> has_own (params (update_params searchterm action
                                    (parseURL (env_anchor E) (location_href s))))
                   URL_MARK_PARAM
               \<and> hash (update_params searchterm action
                         (parseURL (env_anchor E) (location_href s))) = []
            else \<not> has_own (params (update_params searchterm action
                                    (parseURL (env_anchor E) (location_href s))))
                   URL_SEARCH_PARAM)"
proof -
  let ?url = "parseURL (env_anchor E) (location_href s)"
  from renderURL_returns[OF update_params_no_shadow[OF assms]]
  obtain rendered where r: "renderURL (update_params searchterm action ?url) = Inr rendered"
    by blast
  have h: "hasOwnProperty (params ?url) URL_SEARCH_PARAM
             = Inr (has_own (params ?url) URL_SEARCH_PARAM)"
    using assms by (simp add: hasOwnProperty_def)
  have c: "setSearchUrlParameters E searchterm action s = Inr (pushState E rendered s)
         \<or> setSearchUrlParameters E searchterm action s = Inr (replaceState E rendered s)"
    using r by (cases action; simp add: setSearchUrlParameters_def Let_def h)
  have u: "(if searchterm \<noteq> [] \<or> action = PushIfNewSearchElseReplace
            then obj_get (params (update_params searchterm action ?url)) URL_SEARCH_PARAM
                   = Str searchterm
               \<and> has_own (params (update_params searchterm action ?url)) URL_SEARCH_PARAM
               \<and> \<not> has_own (params (update_params searchterm action ?url)) URL_MARK_PARAM
               \<and> hash (update_params searchterm action ?url) = []
            else \<not> has_own (params (update_params searchterm action ?url)) URL_SEARCH_PARAM)"
    by (simp add: update_params_def has_own_obj_set obj_set_def
        URL_SEARCH_PARAM_def URL_MARK_PARAM_def)
  from c show ?thesis
  proof
    assume "setSearchUrlParameters E searchterm action s = Inr (pushState E rendered s)"
    then show ?thesis using r u renderURL_shape[OF r]
      by (intro exI[of _ "pushState E rendered s"] exI[of _ rendered]) (simp add: pushState_def)
  next
    assume "setSearchUrlParameters E searchterm action s = Inr (replaceState E rendered s)"
    then show ?thesis using r u renderURL_shape[OF r]
      by (intro exI[of _ "replaceState E rendered s"] exI[of _ rendered]) (simp add: replaceState_def)
  qed
qed

text \<open>
  Claim C4, as the code has it. Line 635 writes the value of a parameter into the URL as
  it is, and line 945 stores the text of the search bar as the value of \<^verbatim>\<open>search\<close>.
  For the term \<^verbatim>\<open>a#b\<close> on the page \<^verbatim>\<open>http://h/p\<close> the URL that is committed is
  \<^verbatim>\<open>http://h/p?search=a#b\<close>: its \<^verbatim>\<open>search\<close> parameter is \<^verbatim>\<open>a\<close>, not the term, and
  its fragment is \<^verbatim>\<open>b\<close>, not empty. For the term \<^verbatim>\<open>x&highlight=y\<close> the committed URL
  has a \<^verbatim>\<open>highlight\<close> parameter.
\<close>

theorem setSearchUrlParameters_unencoded_term:
  "setSearchUrlParameters example_environment ''a#b'' Push (initial_session ''http://h/p'')
     = Inr (pushState example_environment ''http://h/p?search=a#b''
              (initial_session ''http://h/p''))
   \<and> location_href (pushState example_environment ''http://h/p?search=a#b''
                       (initial_session ''http://h/p''))
       = ''http://h/p?search=a#b''
   \<and> obj_get (params (parseURL simple_anchor ''http://h/p?search=a#b'')) URL_SEARCH_PARAM
       = Str ''a''
   \<and> hash (parseURL simple_anchor ''http://h/p?search=a#b'') = ''b''
   \<and> setSearchUrlParameters example_environment ''x&highlight=y'' Push
         (initial_session ''http://h/p'')
       = Inr (pushState example_environment ''http://h/p?search=x&highlight=y''
                (initial_session ''http://h/p''))
   \<and> has_own (params (parseURL simple_anchor ''http://h/p?search=x&highlight=y''))
         URL_MARK_PARAM"
proof -
  have l: "parseURL (env_anchor example_environment) (location_href (initial_session ''http://h/p''))
             = parseURL simple_anchor ''http://h/p''"
    by (simp add: example_environment_def initial_session_def)
  have h: "hasOwnProperty (params (parseURL simple_anchor ''http://h/p'')) URL_SEARCH_PARAM
             = Inr False"
    by code_simp
  have r1: "renderURL (update_params ''a#b'' Push (parseURL simple_anchor ''http://h/p''))
              = Inr ''http://h/p?search=a#b''"
    by code_simp
  have r2: "renderURL (update_params ''x&highlight=y'' Push (parseURL simple_anchor ''http://h/p''))
              = Inr ''http://h/p?search=x&highlight=y''"
    by code_simp
  have c1: "setSearchUrlParameters example_environment ''a#b'' Push (initial_session ''http://h/p'')
     = Inr (pushState example_environment ''http://h/p?search=a#b''
              (initial_session ''http://h/p''))"
    by (simp add: setSearchUrlParameters_def Let_def l h r1)
  have c2: "setSearchUrlParameters example_environment ''x&highlight=y'' Push
         (initial_session ''http://h/p'')
       = Inr (pushState example_environment ''http://h/p?search=x&highlight=y''
                (initial_session ''http://h/p''))"
    by (simp add: setSearchUrlParameters_def Let_def l h r2)
  have p1: "obj_get (params (parseURL simple_anchor ''http://h/p?search=a#b'')) URL_SEARCH_PARAM
       = Str ''a''"
    by code_simp
  have p2: "hash (parseURL simple_anchor ''http://h/p?search=a#b'') = ''b''" by code_simp
  have p3: "has_own (params (parseURL simple_anchor ''http://h/p?search=x&highlight=y''))
         URL_MARK_PARAM"
    by code_simp
  have p0: "location_href (pushState example_environment ''http://h/p?search=a#b''
                            (initial_session ''http://h/p''))
              = ''http://h/p?search=a#b''"
    by (simp add: pushState_def example_environment_def)
  from c1 c2 p0 p1 p2 p3 show ?thesis by blast
qed

subsection \<open>The claims about the URL helpers\<close>

text \<open>
  Claim C7, as the code has it. \<^verbatim>\<open>parseURL\<close> is a total function of the parts of the
  anchor: none of its steps can throw. A key \<open>k\<close> is an own property of \<^verbatim>\<open>params\<close>
  exactly when some segment between the \<^verbatim>\<open>&\<close> is not empty and has \<open>k\<close> before its first
  \<^verbatim>\<open>=\<close> (the whole segment when it has no \<^verbatim>\<open>=\<close>), \<^verbatim>\<open>__proto__\<close> excepted. So an empty
  segment adds no entry, but a segment that is not of the form key=value is not dropped:
  the value of \<open>k\<close> is what the last such segment has between its first and second
  \<^verbatim>\<open>=\<close>, and \<^verbatim>\<open>undefined\<close> when that segment has no \<^verbatim>\<open>=\<close>.
\<close>

theorem parseURL_params_of_segments:
  "(has_own (params (parseURL anchor url)) k \<longleftrightarrow>
      k \<noteq> ''__proto__''
      \<and> (\<exists>seg \<in> set (js_split ''&'' (strip_question (a_search (anchor url)))).
            seg \<noteq> [] \<and> to_string (js_nth (js_split ''='' seg) 0) = k))
   \<and> (k \<noteq> ''__proto__'' \<longrightarrow>
        obj_get (params (parseURL anchor url)) k =
          (case filter (\<lambda>seg. seg \<noteq> [] \<and> to_string (js_nth (js_split ''='' seg) 0) = k)
                  (js_split ''&'' (strip_question (a_search (anchor url)))) of
             [] \<Rightarrow> Undefined
           | f # fs \<Rightarrow> js_nth (js_split ''='' (last (f # fs))) 1))"
proof -
  have p: "params (parseURL anchor url)
             = params_loop (js_split ''&'' (strip_question (a_search (anchor url)))) []"
    by (simp add: parseURL_def Let_def parse_params_def)
  have e: "\<not> has_own [] k" "obj_get [] k = Undefined" by (simp_all add: has_own_def obj_get_def)
  have v: "obj_get (params_loop segs []) k =
          (case filter (\<lambda>seg. seg \<noteq> [] \<and> to_string (js_nth (js_split ''='' seg) 0) = k) segs of
             [] \<Rightarrow> Undefined
           | f # fs \<Rightarrow> js_nth (js_split ''='' (last (f # fs))) 1)"
    if "k \<noteq> ''__proto__''" for segs
    using obj_get_params_loop[OF that, of segs "[]"] e(2) by (simp split: list.splits)
  show ?thesis
    unfolding p has_own_params_loop using v e(1) by simp
qed

theorem parseURL_params_of_segments_witness:
  "js_split ''&'' (strip_question (a_search (simple_anchor ''http://h/p?x&&c=d=e'')))
     = [''x'', [], ''c=d=e'']
   \<and> has_own (params (parseURL simple_anchor ''http://h/p?x&&c=d=e'')) ''x''
   \<and> obj_get (params (parseURL simple_anchor ''http://h/p?x&&c=d=e'')) ''x'' = Undefined
   \<and> obj_get (params (parseURL simple_anchor ''http://h/p?x&&c=d=e'')) ''c'' = Str ''d''"
proof -
  have s: "js_split ''&'' (strip_question (a_search (simple_anchor ''http://h/p?x&&c=d=e'')))
             = [''x'', [], ''c=d=e'']"
    by code_simp
  have k: "to_string (js_nth (js_split ''='' ''x'') 0) = ''x''"
    "to_string (js_nth (js_split ''='' ''c=d=e'') 0) = ''c''"
    "js_nth (js_split ''='' ''x'') (Suc 0) = Undefined"
    "js_nth (js_split ''='' ''c=d=e'') (Suc 0) = Str ''d''"
    by code_simp+
  have n: "''x'' \<noteq> ''__proto__''" "''c'' \<noteq> ''__proto__''" by simp_all
  show ?thesis
    using parseURL_params_of_segments[of simple_anchor "''http://h/p?x&&c=d=e''" "''x''"]
      parseURL_params_of_segments[of simple_anchor "''http://h/p?x&&c=d=e''" "''c''"]
    unfolding s by (simp add: k n del: js_split.simps)
qed

text \<open>
  The segments \<^verbatim>\<open>a\<close>, \<^verbatim>\<open>=b\<close> and \<^verbatim>\<open>c=d=e\<close> are not of the form key=value, and each
  of them leaves an entry.
\<close>

theorem parseURL_params_of_segments_counterexample:
  "params (parseURL simple_anchor ''http://h/p?a&=b&c=d=e'')
     = [(''a'', Undefined), ([], Str ''b''), (''c'', Str ''d'')]"
  by code_simp

text \<open>
  The round trip for an arbitrary anchor: when the anchor resolves the rendered URL to the
  parts of \<open>u\<close> with the rendered query, and every parameter of \<open>u\<close> has a value, the
  second parse gives the fields of the first.
\<close>

lemma parse_render_parse_anchor:
  assumes "renderURL (parseURL anchor url) = Inr rendered"
    and "\<forall>kv \<in> set (params (parseURL anchor url)). snd kv \<noteq> Undefined"
    and "anchor rendered = (anchor url)\<lparr>a_search := query_string (params (parseURL anchor url))\<rparr>"
  shows "protocol (parseURL anchor rendered) = protocol (parseURL anchor url)
       \<and> host (parseURL anchor rendered) = host (parseURL anchor url)
       \<and> port (parseURL anchor rendered) = port (parseURL anchor url)
       \<and> path (parseURL anchor rendered) = path (parseURL anchor url)
       \<and> hash (parseURL anchor rendered) = hash (parseURL anchor url)
       \<and> map_of (params (parseURL anchor rendered)) = map_of (params (parseURL anchor url))
       \<and> rendered = protocol (parseURL anchor url) @ ''://'' @ host (parseURL anchor url)
                     @ (if port (parseURL anchor url) \<noteq> [] then '':'' @ port (parseURL anchor url)
                        else [])
                     @ path (parseURL anchor url) @ query_string (params (parseURL anchor url))
                     @ (if hash (parseURL anchor url) \<noteq> [] then ''#'' @ hash (parseURL anchor url)
                        else [])"
proof -
  have p: "params (parseURL anchor url) = parse_params (a_search (anchor url))"
    by (simp add: parseURL_def Let_def)
  have q: "params (parseURL anchor rendered)
             = parse_params (query_string (params (parseURL anchor url)))"
    by (simp add: parseURL_def Let_def assms(3))
  have m: "map_of (params (parseURL anchor rendered)) = map_of (params (parseURL anchor url))"
    unfolding q
    by (rule parse_query_string) (use assms(2) parse_params_entries p in simp_all)
  have f: "protocol (parseURL anchor rendered) = protocol (parseURL anchor url)"
    "host (parseURL anchor rendered) = host (parseURL anchor url)"
    "port (parseURL anchor rendered) = port (parseURL anchor url)"
    "path (parseURL anchor rendered) = path (parseURL anchor url)"
    "hash (parseURL anchor rendered) = hash (parseURL anchor url)"
    by (simp_all add: parseURL_def Let_def assms(3))
  show ?thesis using f m renderURL_shape[OF assms(1)] by blast
qed

text \<open>
  Claim C2, as the code has it. Let no parameter of \<open>u\<close> be named \<^verbatim>\<open>hasOwnProperty\<close>
  and let every parameter of \<open>u\<close> have a value (no parameter that a segment without
  \<^verbatim>\<open>=\<close> has left \<^verbatim>\<open>undefined\<close>). Then \<^verbatim>\<open>renderURL(parseURL(u))\<close> returns a URL,
  and parsing that URL gives the protocol, host, port, path and hash of \<^verbatim>\<open>parseURL(u)\<close>
  and the same parameters with the same values. The URL is split by \<open>simple_anchor\<close>,
  for every string \<open>u\<close>.
\<close>

theorem parse_render_parse:
  assumes "\<not> has_own (params (parseURL simple_anchor url)) ''hasOwnProperty''"
    and "\<forall>kv \<in> set (params (parseURL simple_anchor url)). snd kv \<noteq> Undefined"
  shows "\<exists>rendered.
           renderURL (parseURL simple_anchor url) = Inr rendered
         \<and> protocol (parseURL simple_anchor rendered) = protocol (parseURL simple_anchor url)
         \<and> host (parseURL simple_anchor rendered) = host (parseURL simple_anchor url)
         \<and> port (parseURL simple_anchor rendered) = port (parseURL simple_anchor url)
         \<and> path (parseURL simple_anchor rendered) = path (parseURL simple_anchor url)
         \<and> hash (parseURL simple_anchor rendered) = hash (parseURL simple_anchor url)
         \<and> map_of (params (parseURL simple_anchor rendered))
             = map_of (params (parseURL simple_anchor url))"
proof -
  from renderURL_returns[OF assms(1)] obtain rendered where
    r: "renderURL (parseURL simple_anchor url) = Inr rendered" by blast
  from parse_render_parse_anchor[OF r assms(2) simple_anchor_rendered[OF r]] r
  show ?thesis by blast
qed

theorem parse_render_parse_witness:
  "\<not> has_own (params (parseURL simple_anchor ''http://h:8080/p?b=1&2=x#f'')) ''hasOwnProperty''
   \<and> params (parseURL simple_anchor ''http://h:8080/p?b=1&2=x#f'')
       = [(''b'', Str ''1''), (''2'', Str ''x'')]
   \<and> renderURL (parseURL simple_anchor ''http://h:8080/p?b=1&2=x#f'')
       = Inr ''http://h:8080/p?2=x&b=1#f''
   \<and> params (parseURL simple_anchor ''http://h:8080/p?2=x&b=1#f'')
       = [(''2'', Str ''x''), (''b'', Str ''1'')]
   \<and> map_of (params (parseURL simple_anchor ''http://h:8080/p?2=x&b=1#f''))
       = map_of (params (parseURL simple_anchor ''http://h:8080/p?b=1&2=x#f''))
   \<and> protocol (parseURL simple_anchor ''http://h:8080/p?2=x&b=1#f'')
       = protocol (parseURL simple_anchor ''http://h:8080/p?b=1&2=x#f'')
   \<and> host (parseURL simple_anchor ''http://h:8080/p?2=x&b=1#f'')
       = host (parseURL simple_anchor ''http://h:8080/p?b=1&2=x#f'')
   \<and> port (parseURL simple_anchor ''http://h:8080/p?2=x&b=1#f'')
       = port (parseURL simple_anchor ''http://h:8080/p?b=1&2=x#f'')
   \<and> path (parseURL simple_anchor ''http://h:8080/p?2=x&b=1#f'')
       = path (parseURL simple_anchor ''http://h:8080/p?b=1&2=x#f'')
   \<and> hash (parseURL simple_anchor ''http://h:8080/p?2=x&b=1#f'')
       = hash (parseURL simple_anchor ''http://h:8080/p?b=1&2=x#f'')"
proof -
  have r: "renderURL (parseURL simple_anchor ''http://h:8080/p?b=1&2=x#f'')
             = Inr ''http://h:8080/p?2=x&b=1#f''"
    by code_simp
  have p: "params (parseURL simple_anchor ''http://h:8080/p?b=1&2=x#f'')
             = [(''b'', Str ''1''), (''2'', Str ''x'')]"
    by code_simp
  have p': "params (parseURL simple_anchor ''http://h:8080/p?2=x&b=1#f'')
             = [(''2'', Str ''x''), (''b'', Str ''1'')]"
    by code_simp
  have h: "\<not> has_own (params (parseURL simple_anchor ''http://h:8080/p?b=1&2=x#f''))
               ''hasOwnProperty''"
    unfolding p by (simp add: has_own_def)
  have d: "\<forall>kv \<in> set (params (parseURL simple_anchor ''http://h:8080/p?b=1&2=x#f'')).
             snd kv \<noteq> Undefined"
    unfolding p by simp
  from parse_render_parse[OF h d] obtain rendered where
    e: "renderURL (parseURL simple_anchor ''http://h:8080/p?b=1&2=x#f'') = Inr rendered"
    and f: "protocol (parseURL simple_anchor rendered)
              = protocol (parseURL simple_anchor ''http://h:8080/p?b=1&2=x#f'')"
      "host (parseURL simple_anchor rendered)
              = host (parseURL simple_anchor ''http://h:8080/p?b=1&2=x#f'')"
      "port (parseURL simple_anchor rendered)
              = port (parseURL simple_anchor ''http://h:8080/p?b=1&2=x#f'')"
      "path (parseURL simple_anchor rendered)
              = path (parseURL simple_anchor ''http://h:8080/p?b=1&2=x#f'')"
      "hash (parseURL simple_anchor rendered)
              = hash (parseURL simple_anchor ''http://h:8080/p?b=1&2=x#f'')"
      "map_of (params (parseURL simple_anchor rendered))
              = map_of (params (parseURL simple_anchor ''http://h:8080/p?b=1&2=x#f''))"
    by blast
  from e r have "rendered = ''http://h:8080/p?2=x&b=1#f''" by simp
  with f h p p' r show ?thesis by blast
qed

text \<open>
  A parameter without a value is \<^verbatim>\<open>undefined\<close> after the first parse, is rendered as
  the text \<^verbatim>\<open>undefined\<close>, and is that string after the second parse. With a parameter
  named \<^verbatim>\<open>hasOwnProperty\<close> nothing is rendered: line 633 calls the value of the
  parameter, which is no function.
\<close>

theorem parse_render_parse_counterexample:
  "renderURL (parseURL simple_anchor ''http://h/p?a'') = Inr ''http://h/p?a=undefined''
   \<and> params (parseURL simple_anchor ''http://h/p?a'') = [(''a'', Undefined)]
   \<and> params (parseURL simple_anchor ''http://h/p?a=undefined'') = [(''a'', Str ''undefined'')]
   \<and> renderURL (parseURL simple_anchor ''http://h/p?hasOwnProperty=1'') = Inl TypeError"
  by code_simp

subsection \<open>The claims about the page\<close>

lemma decodeURIComponent_error: "decodeURIComponent v = Inl e \<Longrightarrow> e = URIError"
  by (auto simp: decodeURIComponent_def split: option.splits)

text \<open>
  Claim C5, as the code has it. When the \<^verbatim>\<open>search\<close> parameter is present and not empty
  and \<^verbatim>\<open>decodeURIComponent\<close> rejects its value, \<^verbatim>\<open>doSearchOrMarkFromUrl\<close> throws the
  \<^verbatim>\<open>URIError\<close>: the search input has been revealed, the value of the search box is
  not assigned (there is no fallback to the raw value) and no query runs.
\<close>

theorem doSearchOrMarkFromUrl_decoding_error:
  assumes "\<not> has_own (params (parseURL (env_anchor E) (location_href s))) ''hasOwnProperty''"
    and "has_own (params (parseURL (env_anchor E) (location_href s))) URL_SEARCH_PARAM"
    and "obj_get (params (parseURL (env_anchor E) (location_href s))) URL_SEARCH_PARAM \<noteq> Str []"
    and "decodeURIComponent
           (plus_to_space
              (to_string (obj_get (params (parseURL (env_anchor E) (location_href s)))
                            URL_SEARCH_PARAM))) = Inl e"
  shows "doSearchOrMarkFromUrl E s = Inl (URIError, s\<lparr>searchbar_outer_display := []\<rparr>)
       \<and> searchbar_value (s\<lparr>searchbar_outer_display := []\<rparr>) = searchbar_value s
       \<and> lookups (s\<lparr>searchbar_outer_display := []\<rparr>) = lookups s"
proof -
  have h: "hasOwnProperty (params (parseURL (env_anchor E) (location_href s))) URL_SEARCH_PARAM
             = Inr True"
    using assms(1,2) by (simp add: hasOwnProperty_def)
  show ?thesis
    using assms(3,4) decodeURIComponent_error[OF assms(4)]
    by (simp add: doSearchOrMarkFromUrl_def Let_def h)
qed

theorem doSearchOrMarkFromUrl_decoding_error_witness:
  "\<not> has_own (params (parseURL (env_anchor example_environment)
                       (location_href (initial_session ''http://h/p?search=%zz''))))
       ''hasOwnProperty''
   \<and> obj_get (params (parseURL (env_anchor example_environment)
                         (location_href (initial_session ''http://h/p?search=%zz''))))
       URL_SEARCH_PARAM = Str ''%zz''
   \<and> decodeURIComponent (plus_to_space ''%zz'') = Inl URIError
   \<and> doSearchOrMarkFromUrl example_environment (initial_session ''http://h/p?search=%zz'')
       = Inl (URIError, (initial_session ''http://h/p?search=%zz'')\<lparr>searchbar_outer_display := []\<rparr>)"
proof -
  have l: "parseURL (env_anchor example_environment)
             (location_href (initial_session ''http://h/p?search=%zz''))
           = parseURL simple_anchor ''http://h/p?search=%zz''"
    by (simp add: example_environment_def initial_session_def)
  have p: "params (parseURL simple_anchor ''http://h/p?search=%zz'') = [(''search'', Str ''%zz'')]"
    by code_simp
  have d: "decodeURIComponent (plus_to_space ''%zz'') = Inl URIError" by code_simp
  have a: "\<not> has_own [(''search'', Str ''%zz'')] ''hasOwnProperty''"
    "has_own [(''search'', Str ''%zz'')] URL_SEARCH_PARAM"
    "obj_get [(''search'', Str ''%zz'')] URL_SEARCH_PARAM = Str ''%zz''"
    by (simp_all add: has_own_def obj_get_def URL_SEARCH_PARAM_def)
  show ?thesis
    using doSearchOrMarkFromUrl_decoding_error[of example_environment
        "initial_session ''http://h/p?search=%zz''" URIError]
    unfolding l p by (simp add: a d)
qed

text \<open>
  The value \<^verbatim>\<open>100%\<close> is malformed for the decoder, and the call throws instead of
  writing \<^verbatim>\<open>100%\<close> to the search box.
\<close>

theorem doSearchOrMarkFromUrl_decoding_counterexample:
  "obj_get (params (parseURL simple_anchor ''http://h/p?search=100%'')) URL_SEARCH_PARAM
     = Str ''100%''
   \<and> decodeURIComponent (plus_to_space ''100%'') = Inl URIError
   \<and> doSearchOrMarkFromUrl example_environment (initial_session ''http://h/p?search=100%'')
       = Inl (URIError, (initial_session ''http://h/p?search=100%'')\<lparr>searchbar_outer_display := []\<rparr>)"
proof -
  have l: "parseURL (env_anchor example_environment)
             (location_href (initial_session ''http://h/p?search=100%''))
           = parseURL simple_anchor ''http://h/p?search=100%''"
    by (simp add: example_environment_def initial_session_def)
  have p: "params (parseURL simple_anchor ''http://h/p?search=100%'') = [(''search'', Str ''100%'')]"
    by code_simp
  have d: "decodeURIComponent (plus_to_space ''100%'') = Inl URIError" by code_simp
  have a: "hasOwnProperty [(''search'', Str ''100%'')] URL_SEARCH_PARAM = Inr True"
    "obj_get [(''search'', Str ''100%'')] URL_SEARCH_PARAM = Str ''100%''"
    by (simp_all add: hasOwnProperty_def has_own_def obj_get_def URL_SEARCH_PARAM_def)
  show ?thesis
    by (simp add: doSearchOrMarkFromUrl_def Let_def l p a d)
qed

text \<open>
  Claim C6. The Down key with the search bar focused does not reach a result: the
  handler takes the focus from the search bar and throws at line 871, whatever the list
  of results holds, so the keyboard focus is on nothing. After Hotkey, Down, Down, Up
  from the unfocused state the focus is on nothing as well (the second Down and the Up
  throw at line 878), and not on result 0.
\<close>

theorem globalKeyHandler_down_throws:
  "globalKeyHandler E (key DOWN_KEYCODE) (s\<lparr>searchbar_focus := True\<rparr>)
     = Inl (TypeError, s\<lparr>searchbar_focus := False\<rparr>)
   \<and> keyboard_focus (after (globalKeyHandler E (key DOWN_KEYCODE)
                              (s\<lparr>searchbar_focus := True, focus_li := None\<rparr>))) = Unfocused
   \<and> keyboard_focus (key_events E [key SEARCH_HOTKEY_KEYCODE, key DOWN_KEYCODE,
                                    key DOWN_KEYCODE, key UP_KEYCODE]
                       (s\<lparr>searchbar_focus := False, focus_li := None\<rparr>)) = Unfocused"
  by (simp add: globalKeyHandler_def key_def hasFocus_def unfocusSearchbar_def keyboard_focus_def
      DOWN_KEYCODE_def UP_KEYCODE_def SEARCH_HOTKEY_KEYCODE_def ESCAPE_KEYCODE_def
      SELECT_KEYCODE_def)

end
